theory Spec2Isabelle
  imports
    Main
    "HOL-Library.Multiset"
    "HOL-Library.Word"
    "HOL-Library.Sublist"
    "HOL-Library.Char_ord"
    "HOL-Library.List_Lexorder"
begin

section \<open>The FastSpeech dataset of TensorFlowTTS\<close>

text \<open>
  A shallow embedding of \<^verbatim>\<open>tensorflow_tts/datasets/fastspeech_dataset.py\<close>, class
  \<^verbatim>\<open>CharactorDurationMelDataset\<close>: the constructor \<^verbatim>\<open>__init__\<close>, the generator, the
  batching pipeline built by \<^verbatim>\<open>create\<close>, and the two getters.

  Everything the class obtains from outside is an explicit parameter: the file system
  (\<^verbatim>\<open>find_files\<close>), the three loader functions, \<^verbatim>\<open>np.argsort\<close> and \<^verbatim>\<open>random.shuffle\<close>.
  Every exception the Python can raise is a value of type \<open>error\<close>; a function that can raise
  returns \<open>error + 'a\<close> with \<open>Inl\<close> for the exception.
\<close>

subsection \<open>Data\<close>

type_synonym path = string

text \<open>
  A mel array is a two-dimensional array of shape \<open>[time, feature]\<close>; \<open>frames\<close> are its rows
  along axis 0 and \<open>n_feats\<close> is the size of axis 1 (kept apart so that an array with no
  frame still has a feature width). The type \<open>'v\<close> is the type of its elements: the loader
  decides which floating-point type the arrays it returns have.

  A value of type \<^verbatim>\<open>float32\<close> is given by its 32 bits; the word 0 is the value 0.0. The
  arrays of charactor ids and of durations hold integers (of any width when loaded).
\<close>

datatype 'v mel = Mel (n_feats: nat) (frames: "'v list list")

type_synonym float32 = "32 word"

definition shape0 :: "'v mel \<Rightarrow> nat" where
  "shape0 m = length (frames m)"

datatype error =
    NoMelFiles string
  | CountMismatch nat nat nat
  | IndexError
  | UnboundLocalError
  | LoadError string
  | StructureError
  | InvalidArgument
  | TypeError

text \<open>
  \<open>NoMelFiles root_dir\<close> is the AssertionError of line 96, \<open>CountMismatch m c d\<close> the one of
  lines 97 to 99 with the three numbers its message prints (mel, charactor, duration).
  \<open>UnboundLocalError\<close> is Python's error for reading a local variable that was never
  assigned. \<open>LoadError msg\<close> is the exception of a loader function (a loader returns
  \<open>Inl msg\<close> when it raises). \<open>StructureError\<close> and \<open>InvalidArgument\<close>
  are raised by the tf.data calls of \<^verbatim>\<open>create\<close>, \<open>TypeError\<close> by the call of a function with a
  wrong number of arguments.
\<close>

datatype warning = FilteredByThreshold nat nat

record env =
  find_files :: "string \<Rightarrow> string \<Rightarrow> path list"
  np_argsort :: "nat list \<Rightarrow> nat list"
  random_shuffle :: "(nat \<times> nat) list list \<Rightarrow> (nat \<times> nat) list list"

record 'v init_args =
  root_dir :: string
  charactor_query :: string
  mel_query :: string
  duration_query :: string
  arg_charactor_load_fn :: "path \<Rightarrow> string + int list"
  arg_mel_load_fn :: "path \<Rightarrow> string + 'v mel"
  arg_duration_load_fn :: "path \<Rightarrow> string + int list"
  mel_length_threshold :: "int option"
  arg_return_utt_id :: bool

record 'v dataset =
  utt_ids :: "string list"
  mel_files :: "path list"
  charactor_files :: "path list"
  duration_files :: "path list"
  mel_load_fn :: "path \<Rightarrow> string + 'v mel"
  charactor_load_fn :: "path \<Rightarrow> string + int list"
  duration_load_fn :: "path \<Rightarrow> string + int list"
  return_utt_id :: bool

subsection \<open>Sequencing of computations that may raise\<close>

definition bindE :: "error + 'a \<Rightarrow> ('a \<Rightarrow> error + 'b) \<Rightarrow> error + 'b" where
  "bindE m f = (case m of Inl e \<Rightarrow> Inl e | Inr x \<Rightarrow> f x)"

text \<open>A list comprehension \<^verbatim>\<open>[f(x) for x in xs]\<close>: left to right, the first exception wins.\<close>

fun comprehension :: "('a \<Rightarrow> error + 'b) \<Rightarrow> 'a list \<Rightarrow> error + 'b list" where
  "comprehension f [] = Inr []"
| "comprehension f (x # xs) =
     (case f x of
        Inl e \<Rightarrow> Inl e
      | Inr y \<Rightarrow> (case comprehension f xs of Inl e \<Rightarrow> Inl e | Inr ys \<Rightarrow> Inr (y # ys)))"

text \<open>
  \<^verbatim>\<open>xs[idx]\<close> for a non-negative index, and \<^verbatim>\<open>[xs[idx] for idx in idxs]\<close>; numpy's
  \<^verbatim>\<open>np.array(xs)[idxs]\<close> selects the same elements and raises IndexError in the same cases.
\<close>

definition getitem :: "'a list \<Rightarrow> nat \<Rightarrow> error + 'a" where
  "getitem xs idx = (if idx < length xs then Inr (xs ! idx) else Inl IndexError)"

definition select :: "'a list \<Rightarrow> nat list \<Rightarrow> error + 'a list" where
  "select xs idxs = comprehension (getitem xs) idxs"

text \<open>The call of a loader function.\<close>

definition call :: "(path \<Rightarrow> string + 'a) \<Rightarrow> path \<Rightarrow> error + 'a" where
  "call load f = (case load f of Inl msg \<Rightarrow> Inl (LoadError msg) | Inr x \<Rightarrow> Inr x)"

subsection \<open>Strings\<close>

text \<open>\<^verbatim>\<open>sub in s\<close>.\<close>

fun str_contains :: "string \<Rightarrow> string \<Rightarrow> bool" where
  "str_contains sub [] = (sub = [])"
| "str_contains sub (c # cs) = (prefix sub (c # cs) \<or> str_contains sub cs)"

text \<open>\<^verbatim>\<open>os.path.basename\<close> (posixpath): what follows the last slash.\<close>

definition basename :: "path \<Rightarrow> string" where
  "basename p = rev (takeWhile (\<lambda>c. c \<noteq> CHR ''/'') (rev p))"

text \<open>
  \<^verbatim>\<open>s.replace(old, "")\<close> for a non-empty \<open>old\<close>: the non-overlapping occurrences of \<open>old\<close>, found
  from the left, are all removed. (With an empty \<open>old\<close> Python returns \<open>s\<close>.)
\<close>

function replace_with_empty :: "string \<Rightarrow> string \<Rightarrow> string" where
  "replace_with_empty old [] = []"
| "replace_with_empty old (c # cs) =
     (if old \<noteq> [] \<and> prefix old (c # cs)
      then replace_with_empty old (drop (length old) (c # cs))
      else c # replace_with_empty old cs)"
  by pat_completeness auto
termination
  by (relation "measure (\<lambda>(old, s). length s)") (auto simp: neq_Nil_conv)

definition utt_id_of :: "path \<Rightarrow> string" where
  "utt_id_of f = replace_with_empty ''-ids.npy'' (basename f)"

subsection \<open>Construction\<close>

text \<open>Lines 55 to 65: the filter by threshold. The warning is logged before the selections.\<close>

definition filter_by_threshold ::
  "(path \<Rightarrow> string + 'v mel) \<Rightarrow> int \<Rightarrow> path list \<times> path list \<times> path list \<Rightarrow>
   warning list \<times> (error + path list \<times> path list \<times> path list \<times> nat list)" where
  "filter_by_threshold load T files =
     (case files of (mel_files0, charactor_files0, duration_files0) \<Rightarrow>
      (case comprehension (\<lambda>f. bindE (call load f) (\<lambda>m. Inr (shape0 m))) mel_files0 of
         Inl e \<Rightarrow> ([], Inl e)
       | Inr mel_lengths \<Rightarrow>
          (let idxs = filter (\<lambda>idx. int (mel_lengths ! idx) > T) [0..<length mel_files0];
               logged = (if length mel_files0 \<noteq> length idxs
                         then [FilteredByThreshold (length mel_files0) (length idxs)] else [])
           in (logged,
               bindE (select mel_files0 idxs) (\<lambda>mel_files1.
               bindE (select charactor_files0 idxs) (\<lambda>charactor_files1.
               bindE (select duration_files0 idxs) (\<lambda>duration_files1.
               bindE (select mel_lengths idxs) (\<lambda>mel_lengths1.
               Inr (mel_files1, charactor_files1, duration_files1, mel_lengths1)))))))))"

text \<open>
  \<^verbatim>\<open>[list(g) for _, g in itertools.groupby(xs, key)]\<close>: the maximal runs of consecutive
  elements with equal keys.
\<close>

function groupby :: "('a \<Rightarrow> 'k) \<Rightarrow> 'a list \<Rightarrow> 'a list list" where
  "groupby key [] = []"
| "groupby key (x # xs) =
     (x # takeWhile (\<lambda>y. key y = key x) xs) # groupby key (dropWhile (\<lambda>y. key y = key x) xs)"
  by pat_completeness auto
termination
  by (relation "measure (\<lambda>(key, xs). length xs)") (auto simp: length_dropWhile_le less_Suc_eq_le)

declare groupby.simps(2) [simp del]

text \<open>Lines 67 to 93: sort by mel length, group equal lengths, shuffle the groups, flatten.\<close>

definition bucket_shuffle ::
  "env \<Rightarrow> path list \<times> path list \<times> path list \<times> nat list \<Rightarrow>
   error + path list \<times> path list \<times> path list \<times> nat list" where
  "bucket_shuffle ev filtered =
     (case filtered of (mel_files0, charactor_files0, duration_files0, mel_lengths0) \<Rightarrow>
      (let idx_sort = np_argsort ev mel_lengths0 in
       bindE (select mel_files0 idx_sort) (\<lambda>mel_files1.
       bindE (select charactor_files0 idx_sort) (\<lambda>charactor_files1.
       bindE (select duration_files0 idx_sort) (\<lambda>duration_files1.
       bindE (select mel_lengths0 idx_sort) (\<lambda>mel_lengths1.
       (let idx_lengths = zip [0..<length mel_lengths1] mel_lengths1;
            groups = groupby snd idx_lengths;
            shuffled = random_shuffle ev groups;
            idxs = concat (map (map fst) shuffled) in
        bindE (select mel_files1 idxs) (\<lambda>mel_files2.
        bindE (select charactor_files1 idxs) (\<lambda>charactor_files2.
        bindE (select duration_files1 idxs) (\<lambda>duration_files2.
        bindE (select mel_lengths1 idxs) (\<lambda>mel_lengths2.
        Inr (mel_files2, charactor_files2, duration_files2, mel_lengths2))))))))))))"

text \<open>Lines 51 to 53: the three sorted file lists.\<close>

definition found_files :: "env \<Rightarrow> 'v init_args \<Rightarrow> path list \<times> path list \<times> path list" where
  "found_files ev a =
     (sort (find_files ev (root_dir a) (mel_query a)),
      sort (find_files ev (root_dir a) (charactor_query a)),
      sort (find_files ev (root_dir a) (duration_query a)))"

text \<open>
  Lines 51 to 93: the lists \<open>(mel_files, charactor_files, duration_files)\<close> as they stand when
  the assertions are reached, with what was logged until then.
\<close>

definition prepare ::
  "env \<Rightarrow> 'v init_args \<Rightarrow> warning list \<times> (error + path list \<times> path list \<times> path list)" where
  "prepare ev a =
     (case mel_length_threshold a of
        None \<Rightarrow> ([], Inr (found_files ev a))
      | Some T \<Rightarrow>
         (case filter_by_threshold (arg_mel_load_fn a) T (found_files ev a) of
            (logged, r) \<Rightarrow>
              (logged,
               bindE (bindE r (bucket_shuffle ev))
                 (\<lambda>(mel_files2, charactor_files2, duration_files2, mel_lengths2).
                    Inr (mel_files2, charactor_files2, duration_files2)))))"

text \<open>Lines 95 to 112: the two assertions, the utterance ids, the attributes.\<close>

definition check_and_set ::
  "'v init_args \<Rightarrow> path list \<times> path list \<times> path list \<Rightarrow> error + 'v dataset" where
  "check_and_set a files =
     (case files of (mel_files0, charactor_files0, duration_files0) \<Rightarrow>
      if length mel_files0 = 0 then Inl (NoMelFiles (root_dir a))
      else if \<not> (length mel_files0 = length charactor_files0
                 \<and> length charactor_files0 = length duration_files0)
      then Inl (CountMismatch (length mel_files0) (length charactor_files0) (length duration_files0))
      else if str_contains ''.npy'' (charactor_query a)
      then Inr \<lparr> utt_ids = map utt_id_of charactor_files0,
                 mel_files = mel_files0,
                 charactor_files = charactor_files0,
                 duration_files = duration_files0,
                 mel_load_fn = arg_mel_load_fn a,
                 charactor_load_fn = arg_charactor_load_fn a,
                 duration_load_fn = arg_duration_load_fn a,
                 return_utt_id = arg_return_utt_id a \<rparr>
      else Inl UnboundLocalError)"

definition init :: "env \<Rightarrow> 'v init_args \<Rightarrow> warning list \<times> (error + 'v dataset)" where
  "init ev a = (case prepare ev a of (logged, r) \<Rightarrow> (logged, bindE r (check_and_set a)))"

text \<open>Line 115: the list of the arguments for the generator, which is one list of ids.\<close>

definition get_args :: "'v dataset \<Rightarrow> string list list" where
  "get_args ds = [utt_ids ds]"

definition get_len_dataset :: "'v dataset \<Rightarrow> nat" where
  "get_len_dataset ds = length (utt_ids ds)"

subsection \<open>The generator\<close>

datatype 'v item =
    Item3 "int list" "int list" "'v mel"
  | Item4 string "int list" "int list" "'v mel"

text \<open>
  What a generator does in one full pass: the values it yields, in order, and how it stops
  (\<open>None\<close> for a normal end, \<open>Some e\<close> for the exception that ended it).
\<close>

fun yields :: "('a \<Rightarrow> error + 'b) \<Rightarrow> 'a list \<Rightarrow> 'b list \<times> error option" where
  "yields f [] = ([], None)"
| "yields f (x # xs) =
     (case f x of
        Inl e \<Rightarrow> ([], Some e)
      | Inr y \<Rightarrow> (case yields f xs of (ys, r) \<Rightarrow> (y # ys, r)))"

text \<open>Lines 119 to 129: the body of the loop, for the pair \<open>(i, utt_id)\<close> of the enumeration.\<close>

definition generator_body :: "'v dataset \<Rightarrow> nat \<times> string \<Rightarrow> error + 'v item" where
  "generator_body ds p =
     (case p of (i, utt_id) \<Rightarrow>
      bindE (getitem (mel_files ds) i) (\<lambda>mel_file.
      bindE (getitem (charactor_files ds) i) (\<lambda>charactor_file.
      bindE (getitem (duration_files ds) i) (\<lambda>duration_file.
      bindE (call (mel_load_fn ds) mel_file) (\<lambda>mel.
      bindE (call (charactor_load_fn ds) charactor_file) (\<lambda>charactor.
      bindE (call (duration_load_fn ds) duration_file) (\<lambda>duration.
      Inr (if return_utt_id ds then Item4 utt_id charactor duration mel
           else Item3 charactor duration mel))))))))"

text \<open>Line 118: the loop runs over \<^verbatim>\<open>enumerate(utt_ids[:4])\<close>.\<close>

definition generator :: "'v dataset \<Rightarrow> string list \<Rightarrow> 'v item list \<times> error option" where
  "generator ds ids = yields (generator_body ds) (enumerate 0 (take 4 ids))"

subsection \<open>The batching pipeline\<close>

datatype dtype = tf_int32 | tf_float32 | tf_string

definition get_output_dtypes :: "'v dataset \<Rightarrow> dtype list" where
  "get_output_dtypes ds =
     (let output_types = [tf_int32, tf_int32, tf_float32]
      in if return_utt_id ds then tf_string # output_types else output_types)"

text \<open>
  A \<^verbatim>\<open>tf.data.Dataset\<close> is modelled by the component types of its elements and by what one
  full iteration yields. The tf.data operations below follow the TensorFlow documentation:
  \<^item> \<^verbatim>\<open>from_generator\<close> calls the generator on the arguments of the list \<open>args\<close> (the
    generator of this class takes one) and converts every component of the tuples it
    yields to the type that \<open>output_types\<close> gives for it: the two integer arrays to
    \<^verbatim>\<open>int32\<close>, which wraps every integer into 32 bits, and the mel array to \<^verbatim>\<open>float32\<close>. The
    conversion of one mel value to \<^verbatim>\<open>float32\<close> is a parameter (\<open>cast\<close>), since it depends on
    the type of the arrays that the loader returns; a string is left as it is;
  \<^item> \<^verbatim>\<open>cache\<close> and \<^verbatim>\<open>prefetch\<close> do not change what an iteration yields;
  \<^item> \<^verbatim>\<open>shuffle\<close> reorders the elements (the reordering is a parameter);
  \<^item> \<^verbatim>\<open>padded_batch\<close> requires \<open>padded_shapes\<close> to have the structure of the elements, cuts
    the elements into consecutive batches of \<open>batch_size\<close> (the last one may be shorter), and
    pads every component of a batch, with the value 0, to the padded shape: a dimension
    \<open>None\<close> is padded to the maximum size of that dimension in the batch, a dimension
    \<open>Some n\<close> to \<open>n\<close>.
\<close>

record 'a tf_dataset =
  element_types :: "dtype list"
  iteration :: "'a list \<times> error option"

record batch =
  charactors :: "int list list"
  durations :: "int list list"
  mels :: "float32 mel list"

definition to_int32 :: "int \<Rightarrow> int" where
  "to_int32 x = sint (word_of_int x :: 32 word)"

fun convert :: "('v \<Rightarrow> float32) \<Rightarrow> 'v item \<Rightarrow> float32 item" where
  "convert cast (Item3 c d m) =
     Item3 (map to_int32 c) (map to_int32 d) (Mel (n_feats m) (map (map cast) (frames m)))"
| "convert cast (Item4 u c d m) =
     Item4 u (map to_int32 c) (map to_int32 d) (Mel (n_feats m) (map (map cast) (frames m)))"

definition from_generator ::
  "('v \<Rightarrow> float32) \<Rightarrow> (string list \<Rightarrow> 'v item list \<times> error option) \<Rightarrow> dtype list \<Rightarrow>
   string list list \<Rightarrow> float32 item tf_dataset" where
  "from_generator cast gen output_types args =
     \<lparr> element_types = output_types,
       iteration =
         (case args of
            [ids] \<Rightarrow> (let r = gen ids in (map (convert cast) (fst r), snd r))
          | _ \<Rightarrow> ([], Some TypeError)) \<rparr>"

definition cache :: "'a tf_dataset \<Rightarrow> 'a tf_dataset" where
  "cache d = d"

definition prefetch :: "'a tf_dataset \<Rightarrow> 'a tf_dataset" where
  "prefetch d = d"

text \<open>
  The shuffle buffer is filled before the first element is handed on; an exception of the
  input while it is filled is passed on at once.
\<close>

definition shuffle :: "('a list \<Rightarrow> 'a list) \<Rightarrow> nat \<Rightarrow> 'a tf_dataset \<Rightarrow> error + 'a tf_dataset" where
  "shuffle reorder buffer_size d =
     (if buffer_size = 0 then Inl InvalidArgument
      else Inr (d \<lparr> iteration :=
                  (case iteration d of
                     (xs, None) \<Rightarrow> (reorder xs, None)
                   | (xs, Some e) \<Rightarrow> ([], Some e)) \<rparr>))"

fun item_charactor :: "'v item \<Rightarrow> int list" where
  "item_charactor (Item3 c d m) = c"
| "item_charactor (Item4 u c d m) = c"

fun item_duration :: "'v item \<Rightarrow> int list" where
  "item_duration (Item3 c d m) = d"
| "item_duration (Item4 u c d m) = d"

fun item_mel :: "'v item \<Rightarrow> 'v mel" where
  "item_mel (Item3 c d m) = m"
| "item_mel (Item4 u c d m) = m"

definition max_size :: "nat list \<Rightarrow> nat" where
  "max_size sizes = fold max sizes 0"

definition padded_dim :: "nat option \<Rightarrow> nat list \<Rightarrow> nat" where
  "padded_dim shape_dim sizes = (case shape_dim of None \<Rightarrow> max_size sizes | Some n \<Rightarrow> n)"

definition pad_vector :: "nat \<Rightarrow> int list \<Rightarrow> int list" where
  "pad_vector n v = v @ replicate (n - length v) 0"

definition pad_mel :: "nat \<Rightarrow> nat \<Rightarrow> float32 mel \<Rightarrow> float32 mel" where
  "pad_mel t f m =
     Mel f (map (\<lambda>row. row @ replicate (f - length row) 0) (frames m)
            @ replicate (t - length (frames m)) (replicate f 0))"

definition pad_batch :: "nat option list list \<Rightarrow> float32 item list \<Rightarrow> error + batch" where
  "pad_batch padded_shapes b =
     (case padded_shapes of
        [[c_dim], [d_dim], [t_dim, f_dim]] \<Rightarrow>
          (let cs = map item_charactor b; ds = map item_duration b; ms = map item_mel b;
               c_len = padded_dim c_dim (map length cs);
               d_len = padded_dim d_dim (map length ds);
               t_len = padded_dim t_dim (map shape0 ms);
               f_len = padded_dim f_dim (map n_feats ms)
           in if list_all (\<lambda>c. length c \<le> c_len) cs \<and> list_all (\<lambda>d. length d \<le> d_len) ds
                 \<and> list_all (\<lambda>m. shape0 m \<le> t_len \<and> n_feats m \<le> f_len) ms
              then Inr \<lparr> charactors = map (pad_vector c_len) cs,
                         durations = map (pad_vector d_len) ds,
                         mels = map (pad_mel t_len f_len) ms \<rparr>
              else Inl InvalidArgument)
      | _ \<Rightarrow> Inl StructureError)"

text \<open>Consecutive batches of \<open>n\<close> elements; the last one holds what is left.\<close>

function chunks :: "nat \<Rightarrow> 'a list \<Rightarrow> 'a list list" where
  "chunks n xs = (if n = 0 \<or> xs = [] then [] else take n xs # chunks n (drop n xs))"
  by pat_completeness auto
termination
  by (relation "measure (\<lambda>(n, xs). length xs)") auto

declare chunks.simps [simp del]

text \<open>
  When the input ends with an exception, the batches completed before it are yielded and
  the exception follows.
\<close>

definition batch_iteration ::
  "nat \<Rightarrow> nat option list list \<Rightarrow> float32 item list \<times> error option \<Rightarrow>
   batch list \<times> error option" where
  "batch_iteration batch_size padded_shapes it =
     (case it of
        (xs, None) \<Rightarrow> yields (pad_batch padded_shapes) (chunks batch_size xs)
      | (xs, Some e) \<Rightarrow>
          (case yields (pad_batch padded_shapes)
                  (filter (\<lambda>b. length b = batch_size) (chunks batch_size xs)) of
             (bs, None) \<Rightarrow> (bs, Some e)
           | (bs, Some e') \<Rightarrow> (bs, Some e')))"

definition padded_batch ::
  "nat \<Rightarrow> nat option list list \<Rightarrow> float32 item tf_dataset \<Rightarrow> error + batch tf_dataset" where
  "padded_batch batch_size padded_shapes d =
     (if length padded_shapes \<noteq> length (element_types d) then Inl StructureError
      else if batch_size = 0 then Inl InvalidArgument
      else Inr \<lparr> element_types = element_types d,
                 iteration = batch_iteration batch_size padded_shapes (iteration d) \<rparr>)"

text \<open>
  Lines 131 to 155. The parameter \<open>reorder\<close> is the reordering that \<^verbatim>\<open>shuffle\<close> applies and
  \<open>cast\<close> the conversion of a mel value to \<^verbatim>\<open>float32\<close>; \<^verbatim>\<open>map_fn\<close> is not used by the method,
  and \<^verbatim>\<open>reshuffle_each_iteration\<close> does not matter to a single iteration.
\<close>

definition create ::
  "(float32 item list \<Rightarrow> float32 item list) \<Rightarrow> ('v \<Rightarrow> float32) \<Rightarrow> 'v dataset \<Rightarrow>
   bool \<Rightarrow> nat \<Rightarrow> bool \<Rightarrow> error + batch tf_dataset" where
  "create reorder cast ds allow_cache batch_size is_shuffle =
     (let output_types = get_output_dtypes ds;
          datasets0 = from_generator cast (generator ds) output_types (get_args ds);
          datasets1 = (if allow_cache then cache datasets0 else datasets0)
      in bindE (if is_shuffle then shuffle reorder (get_len_dataset ds) datasets1
                else Inr datasets1) (\<lambda>datasets2.
         bindE (padded_batch batch_size [[None], [None], [None, None]] datasets2) (\<lambda>datasets3.
         Inr (prefetch datasets3))))"

subsection \<open>Example directories\<close>

text \<open>
  A directory \<open>dir\<close> that holds the given mel, charactor and duration files under the three
  default queries.
\<close>

definition listing :: "string \<Rightarrow> path list \<Rightarrow> path list \<Rightarrow> path list \<Rightarrow> string \<Rightarrow> string \<Rightarrow> path list" where
  "listing dir mel_fs charactor_fs duration_fs root_dir' query =
     (if root_dir' \<noteq> dir then []
      else if query = ''*-norm-feats.npy'' then mel_fs
      else if query = ''*-ids.npy'' then charactor_fs
      else if query = ''*-durations.npy'' then duration_fs
      else [])"

text \<open>
  The mel files of the examples hold \<^verbatim>\<open>float32\<close> arrays, and the conversion of a \<^verbatim>\<open>float32\<close>
  value to \<^verbatim>\<open>float32\<close> leaves it as it is.
\<close>

definition keep_float32 :: "float32 \<Rightarrow> float32" where
  "keep_float32 v = v"


definition ex_mel_load :: "path \<Rightarrow> string + float32 mel" where
  "ex_mel_load f =
     (if f = ''dump/a-norm-feats.npy'' then Inr (Mel 2 [[1, 2], [3, 4], [5, 6]])
      else if f = ''dump/b-norm-feats.npy'' then Inr (Mel 2 [[7, 8]])
      else if f = ''dump/c-norm-feats.npy'' then Inr (Mel 2 [[9, 10], [11, 12], [13, 14]])
      else if f = ''dump/d-norm-feats.npy'' then Inr (Mel 2 [[15, 16], [17, 18]])
      else if f = ''dump/e-norm-feats.npy'' then Inr (Mel 2 [[19, 20]])
      else Inl ''No such file'')"

definition ex_charactor_load :: "path \<Rightarrow> string + int list" where
  "ex_charactor_load f =
     (if f = ''dump/a-ids.npy'' then Inr [5, 6, 7]
      else if f = ''dump/b-ids.npy'' then Inr [8]
      else if f = ''dump/c-ids.npy'' then Inr [9, 10]
      else if f = ''dump/d-ids.npy'' then Inr [11, 12]
      else if f = ''dump/e-ids.npy'' then Inr [13]
      else Inl ''No such file'')"

definition ex_duration_load :: "path \<Rightarrow> string + int list" where
  "ex_duration_load f =
     (if f = ''dump/a-durations.npy'' then Inr [1, 1, 1]
      else if f = ''dump/b-durations.npy'' then Inr [1]
      else if f = ''dump/c-durations.npy'' then Inr [2, 1]
      else if f = ''dump/d-durations.npy'' then Inr [1, 1]
      else if f = ''dump/e-durations.npy'' then Inr [1]
      else Inl ''No such file'')"

text \<open>A stable argsort, and the reversal as the shuffle of the groups.\<close>

definition stable_argsort :: "nat list \<Rightarrow> nat list" where
  "stable_argsort ks = sort_key (\<lambda>i. ks ! i) [0..<length ks]"

definition ex_env :: env where
  "ex_env =
     \<lparr> find_files = listing ''dump''
         [''dump/c-norm-feats.npy'', ''dump/a-norm-feats.npy'', ''dump/b-norm-feats.npy'']
         [''dump/b-ids.npy'', ''dump/a-ids.npy'', ''dump/c-ids.npy'']
         [''dump/a-durations.npy'', ''dump/b-durations.npy'', ''dump/c-durations.npy''],
       np_argsort = stable_argsort, random_shuffle = rev \<rparr>"

definition ex_args :: "float32 init_args" where
  "ex_args = \<lparr> root_dir = ''dump'', charactor_query = ''*-ids.npy'',
               mel_query = ''*-norm-feats.npy'', duration_query = ''*-durations.npy'',
               arg_charactor_load_fn = ex_charactor_load, arg_mel_load_fn = ex_mel_load,
               arg_duration_load_fn = ex_duration_load,
               mel_length_threshold = None, arg_return_utt_id = False \<rparr>"

text \<open>A directory with charactor files and no mel file.\<close>

definition no_mel_env :: env where
  "no_mel_env =
     \<lparr> find_files = listing ''dump'' [] [''dump/a-ids.npy''] [],
       np_argsort = stable_argsort, random_shuffle = rev \<rparr>"

text \<open>A directory with two mel files and one charactor and one duration file.\<close>

definition short_env :: env where
  "short_env =
     \<lparr> find_files = listing ''dump''
         [''dump/a-norm-feats.npy'', ''dump/b-norm-feats.npy'']
         [''dump/a-ids.npy'']
         [''dump/a-durations.npy''],
       np_argsort = stable_argsort, random_shuffle = rev \<rparr>"

text \<open>A directory with five samples.\<close>

definition five_env :: env where
  "five_env =
     \<lparr> find_files = listing ''dump''
         [''dump/a-norm-feats.npy'', ''dump/b-norm-feats.npy'', ''dump/c-norm-feats.npy'',
          ''dump/d-norm-feats.npy'', ''dump/e-norm-feats.npy'']
         [''dump/a-ids.npy'', ''dump/b-ids.npy'', ''dump/c-ids.npy'', ''dump/d-ids.npy'',
          ''dump/e-ids.npy'']
         [''dump/a-durations.npy'', ''dump/b-durations.npy'', ''dump/c-durations.npy'',
          ''dump/d-durations.npy'', ''dump/e-durations.npy''],
       np_argsort = stable_argsort, random_shuffle = rev \<rparr>"

text \<open>The same directory read with a threshold of one frame.\<close>

definition short_args :: "float32 init_args" where
  "short_args = ex_args \<lparr> mel_length_threshold := Some 1 \<rparr>"

text \<open>The directory with two mel files read with a threshold of zero frames.\<close>

definition short_args0 :: "float32 init_args" where
  "short_args0 = ex_args \<lparr> mel_length_threshold := Some 0 \<rparr>"

text \<open>
  A directory in which every query is the name of one existing file, read with queries
  that do not contain \<^verbatim>\<open>.npy\<close>.
\<close>

definition literal_env :: env where
  "literal_env =
     \<lparr> find_files = (\<lambda>dir query. [dir @ ''/'' @ query]),
       np_argsort = stable_argsort, random_shuffle = rev \<rparr>"

definition literal_args :: "float32 init_args" where
  "literal_args = ex_args \<lparr> charactor_query := ''a-ids'', mel_query := ''a-norm-feats'',
                             duration_query := ''a-durations'' \<rparr>"

text \<open>
  A charactor file whose name holds \<^verbatim>\<open>-ids.npy\<close> twice, read with loaders that accept every
  path, and with \<^verbatim>\<open>return_utt_id=True\<close>.
\<close>

definition twice_env :: env where
  "twice_env =
     \<lparr> find_files = listing ''dump''
         [''dump/x-norm-feats.npy''] [''dump/x-ids.npy-ids.npy''] [''dump/x-durations.npy''],
       np_argsort = stable_argsort, random_shuffle = rev \<rparr>"

definition twice_args :: "float32 init_args" where
  "twice_args = ex_args \<lparr> arg_charactor_load_fn := (\<lambda>f. Inr [1]),
                           arg_mel_load_fn := (\<lambda>f. Inr (Mel 1 [[0]])),
                           arg_duration_load_fn := (\<lambda>f. Inr [1]),
                           arg_return_utt_id := True \<rparr>"

definition ex_args_with_id :: "float32 init_args" where
  "ex_args_with_id = ex_args \<lparr> arg_return_utt_id := True \<rparr>"

text \<open>The example directory with one mel file of three features instead of two.\<close>

definition wide_mel_load :: "path \<Rightarrow> string + float32 mel" where
  "wide_mel_load f =
     (if f = ''dump/b-norm-feats.npy'' then Inr (Mel 3 [[7, 8, 9]]) else ex_mel_load f)"

definition wide_args :: "float32 init_args" where
  "wide_args = ex_args \<lparr> arg_mel_load_fn := wide_mel_load \<rparr>"

text \<open>
  A directory with four samples whose mel arrays have 2, 2, 1 and 1 frames. On the list
  \<open>[2, 2, 1, 1]\<close> of these lengths \<^verbatim>\<open>np.argsort\<close> (default kind) returns \<open>[3, 2, 1, 0]\<close>; the
  function \<open>argsort_at_2211\<close> has this value there and sorts stably every other list.
  The two environments differ in the outcome of \<^verbatim>\<open>random.shuffle\<close> on the two groups.
\<close>

definition argsort_at_2211 :: "nat list \<Rightarrow> nat list" where
  "argsort_at_2211 ks = (if ks = [2, 2, 1, 1] then [3, 2, 1, 0] else stable_argsort ks)"

definition four_mel_load :: "path \<Rightarrow> string + float32 mel" where
  "four_mel_load f =
     (if f = ''dump/a-norm-feats.npy'' then Inr (Mel 1 [[1], [2]])
      else if f = ''dump/b-norm-feats.npy'' then Inr (Mel 1 [[3], [4]])
      else if f = ''dump/c-norm-feats.npy'' then Inr (Mel 1 [[5]])
      else if f = ''dump/d-norm-feats.npy'' then Inr (Mel 1 [[6]])
      else Inl ''No such file'')"

definition four_env :: env where
  "four_env =
     \<lparr> find_files = listing ''dump''
         [''dump/a-norm-feats.npy'', ''dump/b-norm-feats.npy'', ''dump/c-norm-feats.npy'',
          ''dump/d-norm-feats.npy'']
         [''dump/a-ids.npy'', ''dump/b-ids.npy'', ''dump/c-ids.npy'', ''dump/d-ids.npy'']
         [''dump/a-durations.npy'', ''dump/b-durations.npy'', ''dump/c-durations.npy'',
          ''dump/d-durations.npy''],
       np_argsort = argsort_at_2211, random_shuffle = (\<lambda>groups. groups) \<rparr>"

definition four_env_swapped :: env where
  "four_env_swapped = four_env \<lparr> random_shuffle := rev \<rparr>"

definition four_args :: "float32 init_args" where
  "four_args = ex_args \<lparr> arg_mel_load_fn := four_mel_load, mel_length_threshold := Some 0 \<rparr>"

text \<open>The example directory read with a threshold that no mel array exceeds.\<close>

definition drop_all_args :: "float32 init_args" where
  "drop_all_args = ex_args \<lparr> mel_length_threshold := Some 10 \<rparr>"

subsection \<open>Predicates of the properties\<close>

text \<open>The file \<open>f\<close> loads, and its mel array has more than \<open>T\<close> frames.\<close>

definition exceeds :: "(path \<Rightarrow> string + 'v mel) \<Rightarrow> int \<Rightarrow> path \<Rightarrow> bool" where
  "exceeds load T f = (case load f of Inl msg \<Rightarrow> False | Inr m \<Rightarrow> T < int (shape0 m))"

text \<open>
  The suffix stripped from a name, in the words of the specification: a name that ends
  with the suffix loses it, any other name is unchanged.
\<close>

definition strip_suffix :: "string \<Rightarrow> string \<Rightarrow> string" where
  "strip_suffix suf s = (if suffix suf s then take (length s - length suf) s else s)"

text \<open>The first element of a tuple with an utterance id.\<close>

fun item_utt_id :: "'v item \<Rightarrow> string option" where
  "item_utt_id (Item3 c d m) = None"
| "item_utt_id (Item4 u c d m) = Some u"

text \<open>Every row of the array has the feature width of the array.\<close>

definition wf_mel :: "'v mel \<Rightarrow> bool" where
  "wf_mel m = list_all (\<lambda>row. length row = n_feats m) (frames m)"

text \<open>
  What is assumed of \<^verbatim>\<open>np.argsort\<close>: the result is a permutation of the positions of its
  argument, and reading the argument in that order gives an ascending list. (The default
  kind of \<^verbatim>\<open>np.argsort\<close> is quicksort, which numpy documents as not stable, so nothing is
  assumed on the order of equal keys.)
\<close>

definition argsort_contract :: "(nat list \<Rightarrow> nat list) \<Rightarrow> bool" where
  "argsort_contract f \<longleftrightarrow>
     (\<forall>ks. mset (f ks) = mset [0..<length ks] \<and> sorted (map ((!) ks) (f ks)))"

text \<open>What is assumed of \<^verbatim>\<open>random.shuffle\<close>: the result is a permutation of its argument.\<close>

definition shuffle_contract :: "('a list \<Rightarrow> 'a list) \<Rightarrow> bool" where
  "shuffle_contract f \<longleftrightarrow> (\<forall>xs. mset (f xs) = mset xs)"

text \<open>
  The list of positions \<open>p\<close> keeps the original order within every length: for every length
  \<open>k\<close> of \<open>l\<close>, the positions of the samples of length \<open>k\<close> come in \<open>p\<close> in ascending order.
\<close>

definition keeps_order :: "nat list \<Rightarrow> nat list \<Rightarrow> bool" where
  "keeps_order l p \<longleftrightarrow>
     list_all (\<lambda>k. filter (\<lambda>i. l ! i = k) p = filter (\<lambda>i. l ! i = k) [0..<length l]) l"

section \<open>Properties\<close>

subsection \<open>Helper lemmas\<close>

lemma bindE_simps [simp]: "bindE (Inl e) f = Inl e" "bindE (Inr x) f = f x"
  by (simp_all add: bindE_def)

lemma bindE_Inr_iff: "bindE m f = Inr y \<longleftrightarrow> (\<exists>x. m = Inr x \<and> f x = Inr y)"
  by (cases m) simp_all

lemma bindE_Inl_iff: "bindE m f = Inl e \<longleftrightarrow> m = Inl e \<or> (\<exists>x. m = Inr x \<and> f x = Inl e)"
  by (cases m) simp_all

lemma call_Inr_iff: "call load f = Inr x \<longleftrightarrow> load f = Inr x"
  by (simp add: call_def split: sum.splits)

lemma call_Inl_iff: "call load f = Inl e \<longleftrightarrow> (\<exists>msg. load f = Inl msg \<and> e = LoadError msg)"
  by (auto simp: call_def split: sum.splits)

lemma comprehension_Inr_iff:
  "comprehension f xs = Inr ys \<longleftrightarrow> list_all2 (\<lambda>x y. f x = Inr y) xs ys"
proof (induction xs arbitrary: ys)
  case Nil
  show ?case by auto
next
  case (Cons x xs)
  show ?case
  proof (cases "f x")
    case (Inl e)
    then show ?thesis by (auto simp: list_all2_Cons1)
  next
    case (Inr y)
    then show ?thesis
      using Cons.IH by (cases "comprehension f xs") (auto simp: list_all2_Cons1)
  qed
qed

lemma comprehension_Inl_range:
  "comprehension f xs = Inl e \<Longrightarrow> \<exists>x\<in>set xs. f x = Inl e"
  by (induction xs) (auto split: sum.splits)

lemma select_eq:
  "select xs idxs =
     (if list_all (\<lambda>i. i < length xs) idxs then Inr (map ((!) xs) idxs) else Inl IndexError)"
  unfolding select_def
  by (induction idxs) (simp_all add: getitem_def)

lemma select_Inr_iff:
  "select xs idxs = Inr ys \<longleftrightarrow> list_all (\<lambda>i. i < length xs) idxs \<and> ys = map ((!) xs) idxs"
  by (auto simp: select_eq)

lemma select_Inr_length: "select xs idxs = Inr ys \<Longrightarrow> length ys = length idxs"
  by (simp add: select_Inr_iff)

lemma select_Inr_subset: "select xs idxs = Inr ys \<Longrightarrow> set ys \<subseteq> set xs"
  by (auto simp: select_Inr_iff list_all_iff)

lemma select_Inl: "select xs idxs = Inl e \<Longrightarrow> e = IndexError"
  by (simp add: select_eq split: if_splits)

lemma sort_key_eq_Nil_iff [simp]: "sort_key f xs = [] \<longleftrightarrow> xs = []"
  by (metis length_0_conv length_sort)

lemma bucket_shuffle_lengths:
  assumes "bucket_shuffle ev (m, c, d, l) = Inr (m', c', d', l')"
  shows "length c' = length m' \<and> length d' = length m' \<and> length l' = length m'"
  using assms
  by (auto simp: bucket_shuffle_def Let_def bindE_Inr_iff dest!: select_Inr_length)

lemma bucket_shuffle_subset:
  assumes "bucket_shuffle ev (m, c, d, l) = Inr (m', c', d', l')"
  shows "set m' \<subseteq> set m"
  using assms
  by (auto simp: bucket_shuffle_def Let_def bindE_Inr_iff dest!: select_Inr_subset)

lemma bucket_shuffle_Inl:
  "bucket_shuffle ev x = Inl e \<Longrightarrow> e = IndexError"
  by (cases x) (auto simp: bucket_shuffle_def Let_def bindE_Inl_iff dest: select_Inl)

lemma filter_by_threshold_lengths:
  assumes "filter_by_threshold load T (m, c, d) = (logged, Inr (m', c', d', l'))"
  shows "length c' = length m' \<and> length d' = length m' \<and> length l' = length m'"
  using assms
  by (auto simp: filter_by_threshold_def Let_def bindE_Inr_iff split: sum.splits
      dest!: select_Inr_length)

lemma filter_by_threshold_Inl:
  assumes "filter_by_threshold load T x = (logged, Inl e)"
  shows "e = IndexError \<or> (\<exists>msg. e = LoadError msg)"
proof (cases x)
  case (fields m c d)
  show ?thesis
  proof (cases "comprehension (\<lambda>f. bindE (call load f) (\<lambda>m. Inr (shape0 m))) m")
    case (Inl e')
    with assms fields have "e = e'"
      by (simp add: filter_by_threshold_def)
    moreover from Inl obtain f where "bindE (call load f) (\<lambda>m. Inr (shape0 m)) = Inl e'"
      by (auto dest: comprehension_Inl_range)
    ultimately show ?thesis
      by (auto simp: bindE_Inl_iff call_Inl_iff)
  next
    case (Inr lens)
    with assms fields show ?thesis
      by (auto simp: filter_by_threshold_def Let_def bindE_Inl_iff dest: select_Inl)
  qed
qed

lemma prepare_Inl:
  assumes "prepare ev a = (logged, Inl e)"
  shows "e = IndexError \<or> (\<exists>msg. e = LoadError msg)"
proof (cases "mel_length_threshold a")
  case None
  with assms show ?thesis by (simp add: prepare_def)
next
  case (Some T)
  obtain lg r where f: "filter_by_threshold (arg_mel_load_fn a) T (found_files ev a) = (lg, r)"
    by (cases "filter_by_threshold (arg_mel_load_fn a) T (found_files ev a)")
  with assms Some have e: "bindE (bindE r (bucket_shuffle ev))
                 (\<lambda>(mel_files2, charactor_files2, duration_files2, mel_lengths2).
                    Inr (mel_files2, charactor_files2, duration_files2)) = Inl e" and "lg = logged"
    by (simp_all add: prepare_def)
  then consider "r = Inl e" | x where "r = Inr x" "bucket_shuffle ev x = Inl e"
    by (auto simp: bindE_Inl_iff split: prod.splits)
  then show ?thesis
  proof cases
    case 1
    with f show ?thesis by (auto dest: filter_by_threshold_Inl)
  next
    case 2
    then show ?thesis by (auto dest: bucket_shuffle_Inl)
  qed
qed

lemma prepare_Some_lengths:
  assumes "mel_length_threshold a = Some T" "prepare ev a = (logged, Inr (m, c, d))"
  shows "length c = length m \<and> length d = length m"
  using assms
  by (auto simp: prepare_def bindE_Inr_iff split: prod.splits dest!: bucket_shuffle_lengths)

lemma init_Inr_iff:
  "init ev a = (logged, Inr ds) \<longleftrightarrow>
     (\<exists>files. prepare ev a = (logged, Inr files) \<and> check_and_set a files = Inr ds)"
  by (cases "prepare ev a") (auto simp: init_def bindE_Inr_iff)

lemma snd_init: "snd (init ev a) = bindE (snd (prepare ev a)) (check_and_set a)"
  by (cases "prepare ev a") (simp add: init_def)

lemma fst_init: "fst (init ev a) = fst (prepare ev a)"
  by (cases "prepare ev a") (simp add: init_def)

lemma check_and_set_Inr:
  assumes "check_and_set a (m, c, d) = Inr ds"
  shows "m \<noteq> [] \<and> length m = length c \<and> length c = length d
    \<and> str_contains ''.npy'' (charactor_query a)
    \<and> utt_ids ds = map utt_id_of c \<and> mel_files ds = m \<and> charactor_files ds = c
    \<and> duration_files ds = d
    \<and> mel_load_fn ds = arg_mel_load_fn a \<and> charactor_load_fn ds = arg_charactor_load_fn a
    \<and> duration_load_fn ds = arg_duration_load_fn a \<and> return_utt_id ds = arg_return_utt_id a"
  using assms by (auto simp: check_and_set_def split: if_splits)

subsection \<open>The sample count\<close>

text \<open>
  C6. After a successful construction, \<open>get_len_dataset\<close> (the sample count) is the length of
  the charactor file list, of the mel file list, of the duration file list and of the list
  of utterance ids; without a threshold it is the number of charactor files found. In
  particular, for a directory with \<open>N > 0\<close> files in each of the three families, no threshold
  and a charactor query that contains \<^verbatim>\<open>.npy\<close>, the construction succeeds, logs nothing, and
  the sample count is \<open>N\<close>.
\<close>

theorem sample_count:
  "(init ev a = (logged, Inr ds) \<longrightarrow>
      get_len_dataset ds = length (charactor_files ds)
    \<and> get_len_dataset ds = length (mel_files ds)
    \<and> get_len_dataset ds = length (duration_files ds)
    \<and> get_len_dataset ds = length (utt_ids ds)
    \<and> (mel_length_threshold a = None \<longrightarrow>
          get_len_dataset ds = length (find_files ev (root_dir a) (charactor_query a))))
  \<and> (mel_length_threshold a = None \<and> str_contains ''.npy'' (charactor_query a) \<and> 0 < N
      \<and> length (find_files ev (root_dir a) (charactor_query a)) = N
      \<and> length (find_files ev (root_dir a) (mel_query a)) = N
      \<and> length (find_files ev (root_dir a) (duration_query a)) = N \<longrightarrow>
      (\<exists>ds'. init ev a = ([], Inr ds') \<and> get_len_dataset ds' = N))"
proof (intro conjI impI)
  assume ok: "init ev a = (logged, Inr ds)"
  then obtain m c d where p: "prepare ev a = (logged, Inr (m, c, d))"
    and cs: "check_and_set a (m, c, d) = Inr ds"
    by (auto simp: init_Inr_iff)
  note f = check_and_set_Inr [OF cs]
  from f show "get_len_dataset ds = length (charactor_files ds)"
    by (simp add: get_len_dataset_def)
  from f show "get_len_dataset ds = length (mel_files ds)"
    by (simp add: get_len_dataset_def)
  from f show "get_len_dataset ds = length (duration_files ds)"
    by (simp add: get_len_dataset_def)
  show "get_len_dataset ds = length (utt_ids ds)"
    by (simp add: get_len_dataset_def)
  assume "mel_length_threshold a = None"
  with p have "c = sort (find_files ev (root_dir a) (charactor_query a))"
    by (simp add: prepare_def found_files_def)
  with f show "get_len_dataset ds = length (find_files ev (root_dir a) (charactor_query a))"
    by (simp add: get_len_dataset_def)
next
  assume h: "mel_length_threshold a = None \<and> str_contains ''.npy'' (charactor_query a) \<and> 0 < N
      \<and> length (find_files ev (root_dir a) (charactor_query a)) = N
      \<and> length (find_files ev (root_dir a) (mel_query a)) = N
      \<and> length (find_files ev (root_dir a) (duration_query a)) = N"
  then have "find_files ev (root_dir a) (mel_query a) \<noteq> []"
    by auto
  with h show "\<exists>ds'. init ev a = ([], Inr ds') \<and> get_len_dataset ds' = N"
    by (simp add: init_def prepare_def found_files_def check_and_set_def get_len_dataset_def)
qed

theorem sample_count_witness:
  "\<exists>ds. init ex_env ex_args = ([], Inr ds) \<and> get_len_dataset ds = 3
     \<and> length (charactor_files ds) = 3 \<and> length (mel_files ds) = 3
     \<and> length (duration_files ds) = 3 \<and> length (utt_ids ds) = 3"
proof -
  have h: "mel_length_threshold ex_args = None \<and> str_contains ''.npy'' (charactor_query ex_args)
      \<and> 0 < (3::nat)
      \<and> length (find_files ex_env (root_dir ex_args) (charactor_query ex_args)) = 3
      \<and> length (find_files ex_env (root_dir ex_args) (mel_query ex_args)) = 3
      \<and> length (find_files ex_env (root_dir ex_args) (duration_query ex_args)) = 3"
    by (simp add: ex_args_def ex_env_def listing_def)
  with sample_count [of ex_env ex_args "[]" _ 3]
  obtain ds where i: "init ex_env ex_args = ([], Inr ds)" and "get_len_dataset ds = 3"
    by blast
  with sample_count [of ex_env ex_args "[]" ds 3] show ?thesis
    by auto
qed

lemma filter_index_length:
  "length (filter (\<lambda>i. P (xs ! i)) [0..<length xs]) = length (filter P xs)"
proof -
  have "filter P xs = filter P (map ((!) xs) [0..<length xs])"
    by (simp add: map_nth)
  also have "\<dots> = map ((!) xs) (filter (\<lambda>i. P (xs ! i)) [0..<length xs])"
    by (simp add: filter_map comp_def)
  finally show ?thesis by simp
qed

lemma mel_length_exceeds:
  assumes "bindE (call load f) (\<lambda>m. Inr (shape0 m)) = Inr n"
  shows "exceeds load T f \<longleftrightarrow> T < int n"
  using assms by (auto simp: exceeds_def bindE_Inr_iff call_Inr_iff)

lemma filter_by_threshold_Inr:
  assumes "filter_by_threshold load T (m, c, d) = (logged, Inr (m', c', d', l'))"
  shows "list_all (exceeds load T) m'"
    and "logged = (if length m \<noteq> length (filter (exceeds load T) m)
                   then [FilteredByThreshold (length m) (length (filter (exceeds load T) m))]
                   else [])"
proof -
  let ?g = "\<lambda>f. bindE (call load f) (\<lambda>m. Inr (shape0 m))"
  from assms obtain lens where c: "comprehension ?g m = Inr lens"
    by (cases "comprehension ?g m") (auto simp: filter_by_threshold_def)
  then have rel: "list_all2 (\<lambda>f n. ?g f = Inr n) m lens"
    by (simp add: comprehension_Inr_iff)
  then have len: "length lens = length m"
    by (simp add: list_all2_lengthD)
  have ex: "exceeds load T (m ! i) \<longleftrightarrow> T < int (lens ! i)" if "i < length m" for i
    using rel that by (intro mel_length_exceeds) (simp add: list_all2_conv_all_nth)
  let ?idxs = "filter (\<lambda>idx. T < int (lens ! idx)) [0..<length m]"
  have idxs: "?idxs = filter (\<lambda>i. exceeds load T (m ! i)) [0..<length m]"
    by (rule filter_cong) (simp_all add: ex)
  from assms c have sel: "select m ?idxs = Inr m'"
    and lg: "logged = (if length m \<noteq> length ?idxs
                         then [FilteredByThreshold (length m) (length ?idxs)] else [])"
    by (auto simp: filter_by_threshold_def Let_def bindE_Inr_iff)
  from sel have "m' = map ((!) m) ?idxs"
    by (simp add: select_Inr_iff)
  then show "list_all (exceeds load T) m'"
    unfolding idxs by (simp add: list_all_iff)
  from lg show "logged = (if length m \<noteq> length (filter (exceeds load T) m)
                   then [FilteredByThreshold (length m) (length (filter (exceeds load T) m))]
                   else [])"
    unfolding idxs filter_index_length .
qed

lemma prepare_Some_Inr:
  assumes "mel_length_threshold a = Some T" and "prepare ev a = (logged, Inr (m, c, d))"
  obtains m1 c1 d1 l1 l where
    "filter_by_threshold (arg_mel_load_fn a) T (found_files ev a) = (logged, Inr (m1, c1, d1, l1))"
    and "bucket_shuffle ev (m1, c1, d1, l1) = Inr (m, c, d, l)"
  using assms
  by (auto simp: prepare_def bindE_Inr_iff split: prod.splits)

subsection \<open>The filter by threshold\<close>

lemma retained_on_success:
  assumes "mel_length_threshold a = Some T" and "init ev a = (logged, Inr ds)"
  shows "list_all (exceeds (mel_load_fn ds) T) (mel_files ds)
       \<and> logged =
          (let found_mels = find_files ev (root_dir a) (mel_query a);
               kept = filter (exceeds (mel_load_fn ds) T) found_mels
           in if length found_mels \<noteq> length kept
              then [FilteredByThreshold (length found_mels) (length kept)] else [])"
proof -
  from assms(2) obtain m c d where p: "prepare ev a = (logged, Inr (m, c, d))"
    and cs: "check_and_set a (m, c, d) = Inr ds"
    by (auto simp: init_Inr_iff)
  from check_and_set_Inr [OF cs] have ds: "mel_files ds = m" "mel_load_fn ds = arg_mel_load_fn a"
    by simp_all
  obtain M C D where found: "found_files ev a = (M, C, D)"
    by (cases "found_files ev a")
  then have M: "M = sort (find_files ev (root_dir a) (mel_query a))"
    by (simp add: found_files_def)
  from assms(1) p obtain m1 c1 d1 l1 l where
    f: "filter_by_threshold (arg_mel_load_fn a) T (M, C, D) = (logged, Inr (m1, c1, d1, l1))"
    and b: "bucket_shuffle ev (m1, c1, d1, l1) = Inr (m, c, d, l)"
    unfolding found [symmetric] by (rule prepare_Some_Inr)
  from filter_by_threshold_Inr(1) [OF f] bucket_shuffle_subset [OF b]
  have "list_all (exceeds (arg_mel_load_fn a) T) m"
    by (auto simp: list_all_iff)
  moreover have "length (filter (exceeds (arg_mel_load_fn a) T) M)
      = length (filter (exceeds (arg_mel_load_fn a) T) (find_files ev (root_dir a) (mel_query a)))"
    unfolding M by (simp add: filter_sort)
  ultimately show ?thesis
    using filter_by_threshold_Inr(2) [OF f] by (simp add: ds M Let_def)
qed

lemma fst_filter_by_threshold:
  "fst (filter_by_threshold load T (m, c, d)) =
     (if list_all (\<lambda>f. \<not> isl (load f)) m \<and> length m \<noteq> length (filter (exceeds load T) m)
      then [FilteredByThreshold (length m) (length (filter (exceeds load T) m))] else [])"
proof (cases "comprehension (\<lambda>f. bindE (call load f) (\<lambda>m. Inr (shape0 m))) m")
  case (Inl e)
  then obtain f where f: "f \<in> set m" and "bindE (call load f) (\<lambda>m. Inr (shape0 m)) = Inl e"
    by (auto dest: comprehension_Inl_range)
  then have "isl (load f)"
    by (cases "load f") (simp_all add: call_def)
  with f have "\<not> list_all (\<lambda>f. \<not> isl (load f)) m"
    by (auto simp: list_all_iff)
  with Inl show ?thesis
    by (simp add: filter_by_threshold_def)
next
  case (Inr lens)
  let ?g = "\<lambda>f. bindE (call load f) (\<lambda>m. Inr (shape0 m))"
  from Inr have rel: "list_all2 (\<lambda>f n. ?g f = Inr n) m lens"
    by (simp add: comprehension_Inr_iff)
  have "\<not> isl (load f)" if "f \<in> set m" for f
  proof -
    from that rel obtain n where "?g f = Inr n"
      by (auto simp: in_set_conv_nth list_all2_conv_all_nth)
    then show ?thesis
      by (cases "load f") (simp_all add: call_def)
  qed
  then have all: "list_all (\<lambda>f. \<not> isl (load f)) m"
    by (simp add: list_all_iff)
  have ex: "exceeds load T (m ! i) \<longleftrightarrow> T < int (lens ! i)" if "i < length m" for i
    using rel that by (intro mel_length_exceeds) (simp add: list_all2_conv_all_nth)
  let ?idxs = "filter (\<lambda>idx. T < int (lens ! idx)) [0..<length m]"
  have "?idxs = filter (\<lambda>i. exceeds load T (m ! i)) [0..<length m]"
    by (rule filter_cong) (simp_all add: ex)
  then have "length ?idxs = length (filter (exceeds load T) m)"
    by (simp only: filter_index_length)
  with Inr all show ?thesis
    by (simp add: filter_by_threshold_def Let_def)
qed

lemma fst_prepare_Some:
  "mel_length_threshold a = Some T \<Longrightarrow>
     fst (prepare ev a) = fst (filter_by_threshold (arg_mel_load_fn a) T (found_files ev a))"
  by (simp add: prepare_def split: prod.splits)

text \<open>
  C3. When a threshold \<open>T\<close> is given, every mel file kept in a constructed dataset loads to
  an array with more than \<open>T\<close> frames. Whether the construction succeeds or fails later, the
  log of the construction holds exactly one warning, with the number of mel files found and
  the number kept, when the mel files load and some file was dropped; it is empty when no
  file was dropped (and when a mel file does not load, since the lengths are then never
  compared with the threshold).
\<close>

theorem retained_exceed_threshold:
  assumes "mel_length_threshold a = Some T"
  shows "(init ev a = (logged, Inr ds) \<longrightarrow>
            list_all (exceeds (mel_load_fn ds) T) (mel_files ds)
          \<and> list_all (\<lambda>f. \<not> isl (arg_mel_load_fn a f)) (find_files ev (root_dir a) (mel_query a)))
       \<and> fst (init ev a) =
          (let found_mels = find_files ev (root_dir a) (mel_query a);
               kept = filter (exceeds (arg_mel_load_fn a) T) found_mels
           in if list_all (\<lambda>f. \<not> isl (arg_mel_load_fn a f)) found_mels
                 \<and> length found_mels \<noteq> length kept
              then [FilteredByThreshold (length found_mels) (length kept)] else [])"
proof -
  let ?load = "arg_mel_load_fn a"
  let ?found = "find_files ev (root_dir a) (mel_query a)"
  obtain M C D where found: "found_files ev a = (M, C, D)"
    by (cases "found_files ev a")
  then have M: "M = sort ?found"
    by (simp add: found_files_def)
  have all: "list_all (\<lambda>f. \<not> isl (?load f)) M = list_all (\<lambda>f. \<not> isl (?load f)) ?found"
    by (simp add: M list_all_iff)
  have len: "length (filter (exceeds ?load T) M) = length (filter (exceeds ?load T) ?found)"
    by (simp add: M filter_sort)
  have lenM: "length M = length ?found"
    by (simp add: M)
  have "fst (init ev a) = fst (filter_by_threshold ?load T (M, C, D))"
    using assms by (simp add: fst_init fst_prepare_Some found)
  then have "fst (init ev a) =
     (if list_all (\<lambda>f. \<not> isl (?load f)) M \<and> length M \<noteq> length (filter (exceeds ?load T) M)
      then [FilteredByThreshold (length M) (length (filter (exceeds ?load T) M))] else [])"
    by (simp only: fst_filter_by_threshold)
  then have lg: "fst (init ev a) =
          (let found_mels = ?found; kept = filter (exceeds ?load T) found_mels
           in if list_all (\<lambda>f. \<not> isl (?load f)) found_mels \<and> length found_mels \<noteq> length kept
              then [FilteredByThreshold (length found_mels) (length kept)] else [])"
    by (simp only: all len lenM Let_def)
  have ok: "list_all (exceeds (mel_load_fn ds) T) (mel_files ds)
          \<and> list_all (\<lambda>f. \<not> isl (?load f)) ?found"
    if i: "init ev a = (logged, Inr ds)"
  proof -
    from retained_on_success [OF assms i]
    have r: "list_all (exceeds (mel_load_fn ds) T) (mel_files ds)"
      by blast
    from i obtain m c d where p: "prepare ev a = (logged, Inr (m, c, d))"
      by (auto simp: init_Inr_iff)
    from assms p obtain m1 c1 d1 l1 l where
      "filter_by_threshold ?load T (M, C, D) = (logged, Inr (m1, c1, d1, l1))"
      unfolding found [symmetric] by (rule prepare_Some_Inr)
    then have "comprehension (\<lambda>f. bindE (call ?load f) (\<lambda>m. Inr (shape0 m))) M \<noteq> Inl e" for e
      by (auto simp: filter_by_threshold_def)
    then obtain lens where
      "comprehension (\<lambda>f. bindE (call ?load f) (\<lambda>m. Inr (shape0 m))) M = Inr lens"
      by (cases "comprehension (\<lambda>f. bindE (call ?load f) (\<lambda>m. Inr (shape0 m))) M") auto
    then have rel: "list_all2 (\<lambda>f n. bindE (call ?load f) (\<lambda>m. Inr (shape0 m)) = Inr n) M lens"
      by (simp add: comprehension_Inr_iff)
    have "\<not> isl (?load f)" if "f \<in> set M" for f
    proof -
      from that rel obtain n where "bindE (call ?load f) (\<lambda>m. Inr (shape0 m)) = Inr n"
        by (auto simp: in_set_conv_nth list_all2_conv_all_nth)
      then show ?thesis
        by (cases "?load f") (simp_all add: call_def)
    qed
    then have "list_all (\<lambda>f. \<not> isl (?load f)) M"
      by (simp add: list_all_iff)
    with r all show ?thesis
      by simp
  qed
  from ok lg show ?thesis
    by blast
qed

theorem retained_exceed_threshold_witness:
  "(\<exists>ds. init ex_env short_args = ([FilteredByThreshold 3 2], Inr ds)
      \<and> mel_files ds = [''dump/a-norm-feats.npy'', ''dump/c-norm-feats.npy'']
      \<and> list_all (exceeds (mel_load_fn ds) 1) (mel_files ds))
   \<and> init ex_env drop_all_args = ([FilteredByThreshold 3 0], Inl (NoMelFiles ''dump''))"
proof -
  have t: "mel_length_threshold short_args = Some 1"
    by (simp add: short_args_def)
  have "\<not> isl (snd (init ex_env short_args))"
    by code_simp
  then obtain ds where sn: "snd (init ex_env short_args) = Inr ds"
    by (cases "snd (init ex_env short_args)") auto
  have "(let found_mels = find_files ex_env (root_dir short_args) (mel_query short_args);
               kept = filter (exceeds (arg_mel_load_fn short_args) 1) found_mels
           in if list_all (\<lambda>f. \<not> isl (arg_mel_load_fn short_args f)) found_mels
                 \<and> length found_mels \<noteq> length kept
              then [FilteredByThreshold (length found_mels) (length kept)] else [])
        = [FilteredByThreshold 3 2]"
    by code_simp
  with retained_exceed_threshold [OF t, of ex_env]
  have "fst (init ex_env short_args) = [FilteredByThreshold 3 2]"
    by simp
  with sn have i: "init ex_env short_args = ([FilteredByThreshold 3 2], Inr ds)"
    by (simp add: prod_eq_iff)
  have "mel_files (projr (snd (init ex_env short_args)))
      = [''dump/a-norm-feats.npy'', ''dump/c-norm-feats.npy'']"
    by code_simp
  with sn have m: "mel_files ds = [''dump/a-norm-feats.npy'', ''dump/c-norm-feats.npy'']"
    by simp
  from retained_exceed_threshold [OF t, of ex_env "[FilteredByThreshold 3 2]" ds] i
  have k: "list_all (exceeds (mel_load_fn ds) 1) (mel_files ds)"
    by blast
  have t10: "mel_length_threshold drop_all_args = Some 10"
    by (simp add: drop_all_args_def)
  have "(let found_mels = find_files ex_env (root_dir drop_all_args) (mel_query drop_all_args);
               kept = filter (exceeds (arg_mel_load_fn drop_all_args) 10) found_mels
           in if list_all (\<lambda>f. \<not> isl (arg_mel_load_fn drop_all_args f)) found_mels
                 \<and> length found_mels \<noteq> length kept
              then [FilteredByThreshold (length found_mels) (length kept)] else [])
        = [FilteredByThreshold 3 0]"
    by code_simp
  with retained_exceed_threshold [OF t10, of ex_env]
  have "fst (init ex_env drop_all_args) = [FilteredByThreshold 3 0]"
    by simp
  moreover have "(case snd (init ex_env drop_all_args) of
                    Inl e \<Rightarrow> e = NoMelFiles ''dump'' | Inr ds \<Rightarrow> False)"
    by code_simp
  then have "snd (init ex_env drop_all_args) = Inl (NoMelFiles ''dump'')"
    by (cases "snd (init ex_env drop_all_args)") simp_all
  ultimately have "init ex_env drop_all_args = ([FilteredByThreshold 3 0], Inl (NoMelFiles ''dump''))"
    by (simp add: prod_eq_iff)
  with i m k show ?thesis
    by blast
qed

subsection \<open>The utterance ids are assigned only for a query with .npy\<close>

text \<open>
  C8. When the charactor query does not contain \<^verbatim>\<open>.npy\<close>, no construction succeeds; whenever
  the two assertions pass (a non-empty mel list and three lists of equal length) the
  construction ends with the unbound-variable error, in particular without a threshold
  for non-empty file families of equal size.
\<close>

theorem utt_ids_unbound:
  assumes "\<not> str_contains ''.npy'' (charactor_query a)"
  shows "(\<forall>ds. snd (init ev a) \<noteq> Inr ds)
       \<and> (\<forall>m c d. snd (prepare ev a) = Inr (m, c, d) \<and> m \<noteq> []
             \<and> length m = length c \<and> length c = length d
           \<longrightarrow> snd (init ev a) = Inl UnboundLocalError)
       \<and> (mel_length_threshold a = None
           \<and> find_files ev (root_dir a) (mel_query a) \<noteq> []
           \<and> length (find_files ev (root_dir a) (mel_query a))
               = length (find_files ev (root_dir a) (charactor_query a))
           \<and> length (find_files ev (root_dir a) (charactor_query a))
               = length (find_files ev (root_dir a) (duration_query a))
           \<longrightarrow> init ev a = ([], Inl UnboundLocalError))"
proof (intro conjI allI impI)
  fix ds
  show "snd (init ev a) \<noteq> Inr ds"
  proof
    assume "snd (init ev a) = Inr ds"
    then obtain m c d where "check_and_set a (m, c, d) = Inr ds"
      by (auto simp: snd_init bindE_Inr_iff)
    from check_and_set_Inr [OF this] assms show False
      by simp
  qed
next
  fix m c d
  assume "snd (prepare ev a) = Inr (m, c, d) \<and> m \<noteq> []
             \<and> length m = length c \<and> length c = length d"
  with assms show "snd (init ev a) = Inl UnboundLocalError"
    by (simp add: snd_init check_and_set_def)
next
  assume "mel_length_threshold a = None
           \<and> find_files ev (root_dir a) (mel_query a) \<noteq> []
           \<and> length (find_files ev (root_dir a) (mel_query a))
               = length (find_files ev (root_dir a) (charactor_query a))
           \<and> length (find_files ev (root_dir a) (charactor_query a))
               = length (find_files ev (root_dir a) (duration_query a))"
  with assms show "init ev a = ([], Inl UnboundLocalError)"
    by (simp add: init_def prepare_def found_files_def check_and_set_def)
qed

theorem utt_ids_unbound_witness:
  "\<not> str_contains ''.npy'' (charactor_query literal_args)
   \<and> find_files literal_env ''dump'' ''a-norm-feats'' = [''dump/a-norm-feats'']
   \<and> find_files literal_env ''dump'' ''a-ids'' = [''dump/a-ids'']
   \<and> find_files literal_env ''dump'' ''a-durations'' = [''dump/a-durations'']
   \<and> init literal_env literal_args = ([], Inl UnboundLocalError)"
proof -
  have h: "\<not> str_contains ''.npy'' (charactor_query literal_args)"
    by (simp add: literal_args_def ex_args_def)
  have "mel_length_threshold literal_args = None
           \<and> find_files literal_env (root_dir literal_args) (mel_query literal_args) \<noteq> []
           \<and> length (find_files literal_env (root_dir literal_args) (mel_query literal_args))
               = length (find_files literal_env (root_dir literal_args) (charactor_query literal_args))
           \<and> length (find_files literal_env (root_dir literal_args) (charactor_query literal_args))
               = length (find_files literal_env (root_dir literal_args) (duration_query literal_args))"
    by (simp add: literal_args_def ex_args_def literal_env_def)
  with utt_ids_unbound [OF h, of literal_env] have "init literal_env literal_args = ([], Inl UnboundLocalError)"
    by blast
  with h show ?thesis
    by (simp add: literal_env_def)
qed

subsection \<open>The two assertions\<close>

text \<open>
  C4 (amended). The construction ends with the "no data" error (for its own root
  directory) exactly when the assertions are reached with an empty mel list. It ends with
  the "count mismatch" error naming \<open>i\<close>, \<open>j\<close>, \<open>k\<close> exactly when the assertions are reached with a
  non-empty mel list and three lists that are not of equal length, whose lengths are then
  \<open>i\<close> (mel), \<open>j\<close> (charactor) and \<open>k\<close> (duration). Without a threshold the lists that reach
  the assertions are the sorted lists of the files found. The errors are the result of
  \<open>init\<close>, so the caller of the constructor receives them.
\<close>

theorem construction_assertions:
  "(snd (init ev a) = Inl (NoMelFiles r) \<longleftrightarrow>
      r = root_dir a \<and> (\<exists>c d. snd (prepare ev a) = Inr ([], c, d)))
 \<and> (snd (init ev a) = Inl (CountMismatch i j k) \<longleftrightarrow>
      (\<exists>m c d. snd (prepare ev a) = Inr (m, c, d) \<and> m \<noteq> []
         \<and> \<not> (length m = length c \<and> length c = length d)
         \<and> i = length m \<and> j = length c \<and> k = length d))
 \<and> (mel_length_threshold a = None \<longrightarrow>
      (snd (init ev a) = Inl (NoMelFiles (root_dir a)) \<longleftrightarrow>
         find_files ev (root_dir a) (mel_query a) = [])
    \<and> (snd (init ev a) = Inl (CountMismatch i j k) \<longleftrightarrow>
         i = length (find_files ev (root_dir a) (mel_query a))
       \<and> j = length (find_files ev (root_dir a) (charactor_query a))
       \<and> k = length (find_files ev (root_dir a) (duration_query a))
       \<and> i \<noteq> 0 \<and> \<not> (i = j \<and> j = k)))"
proof -
  have gen: "(snd (init ev a) = Inl (NoMelFiles r) \<longleftrightarrow>
      r = root_dir a \<and> (\<exists>c d. snd (prepare ev a) = Inr ([], c, d)))
   \<and> (snd (init ev a) = Inl (CountMismatch i j k) \<longleftrightarrow>
      (\<exists>m c d. snd (prepare ev a) = Inr (m, c, d) \<and> m \<noteq> []
         \<and> \<not> (length m = length c \<and> length c = length d)
         \<and> i = length m \<and> j = length c \<and> k = length d))"
  proof (cases "snd (prepare ev a)")
    case (Inl e)
    then have "prepare ev a = (fst (prepare ev a), Inl e)"
      by (metis prod.collapse)
    then have "e = IndexError \<or> (\<exists>msg. e = LoadError msg)"
      by (rule prepare_Inl)
    with Inl show ?thesis
      by (auto simp: snd_init)
  next
    case (Inr files)
    obtain m c d where "files = (m, c, d)"
      by (cases files)
    with Inr show ?thesis
      by (auto simp: snd_init check_and_set_def)
  qed
  have "snd (prepare ev a) = Inr (found_files ev a)" if "mel_length_threshold a = None"
    using that by (simp add: prepare_def)
  then have "mel_length_threshold a = None \<longrightarrow>
      (snd (init ev a) = Inl (NoMelFiles (root_dir a)) \<longleftrightarrow>
         find_files ev (root_dir a) (mel_query a) = [])
    \<and> (snd (init ev a) = Inl (CountMismatch i j k) \<longleftrightarrow>
         i = length (find_files ev (root_dir a) (mel_query a))
       \<and> j = length (find_files ev (root_dir a) (charactor_query a))
       \<and> k = length (find_files ev (root_dir a) (duration_query a))
       \<and> i \<noteq> 0 \<and> \<not> (i = j \<and> j = k))"
    by (auto simp: snd_init check_and_set_def found_files_def)
  with gen show ?thesis
    by blast
qed

theorem construction_assertions_witness:
  "snd (init no_mel_env ex_args) = Inl (NoMelFiles ''dump'')
   \<and> snd (init short_env ex_args) = Inl (CountMismatch 2 1 1)"
proof -
  have n: "mel_length_threshold ex_args = None"
    by (simp add: ex_args_def)
  have "find_files no_mel_env (root_dir ex_args) (mel_query ex_args) = []"
    by (simp add: ex_args_def no_mel_env_def listing_def)
  with construction_assertions [of no_mel_env ex_args "''dump''" 0 0 0] n
  have 1: "snd (init no_mel_env ex_args) = Inl (NoMelFiles ''dump'')"
    by (simp add: ex_args_def)
  have "length (find_files short_env (root_dir ex_args) (mel_query ex_args)) = 2"
    and "length (find_files short_env (root_dir ex_args) (charactor_query ex_args)) = 1"
    and "length (find_files short_env (root_dir ex_args) (duration_query ex_args)) = 1"
    by (simp_all add: ex_args_def short_env_def listing_def)
  with construction_assertions [of short_env ex_args "''dump''" 2 1 1] n
  have "snd (init short_env ex_args) = Inl (CountMismatch 2 1 1)"
    by simp
  with 1 show ?thesis
    by simp
qed

text \<open>
  C4 as stated fails: here the three lists have the lengths 0, 1 and 0, which differ, and the
  construction ends with the "no data" error, not with the "count mismatch" error.
\<close>

theorem no_data_hides_count_mismatch:
  "found_files no_mel_env ex_args = ([], [''dump/a-ids.npy''], [])
   \<and> snd (init no_mel_env ex_args) = Inl (NoMelFiles ''dump'')"
  by (simp add: init_def prepare_def found_files_def check_and_set_def ex_args_def
      no_mel_env_def listing_def)

subsection \<open>The filter indexes the charactor and duration lists before the assertions\<close>

lemma comprehension_total:
  "list_all (\<lambda>x. \<not> isl (f x)) xs \<Longrightarrow> \<exists>ys. comprehension f xs = Inr ys"
proof (induction xs)
  case Nil
  then show ?case by simp
next
  case (Cons x xs)
  then obtain y ys where "f x = Inr y" "comprehension f xs = Inr ys"
    by (cases "f x") auto
  then show ?case by simp
qed

text \<open>
  C9 (amended). With a threshold \<open>T\<close>, when every mel file found loads and some mel file with
  more than \<open>T\<close> frames stands at a position \<open>i\<close> that the sorted charactor list or the sorted
  duration list does not have, the construction ends with the index error of the filter
  step (so neither assertion is reached).
\<close>

theorem filter_index_error:
  assumes "mel_length_threshold a = Some T"
    and "found_files ev a = (m, c, d)"
    and "list_all (\<lambda>f. \<not> isl (arg_mel_load_fn a f)) m"
    and "i < length m" and "exceeds (arg_mel_load_fn a) T (m ! i)"
    and "length c \<le> i \<or> length d \<le> i"
  shows "snd (init ev a) = Inl IndexError"
proof -
  let ?load = "arg_mel_load_fn a"
  let ?g = "\<lambda>f. bindE (call ?load f) (\<lambda>m. Inr (shape0 m))"
  have "list_all (\<lambda>f. \<not> isl (?g f)) m"
    using assms(3) by (auto simp: list_all_iff call_def split: sum.splits)
  then obtain lens where c: "comprehension ?g m = Inr lens"
    by (auto dest: comprehension_total)
  then have rel: "list_all2 (\<lambda>f n. ?g f = Inr n) m lens"
    by (simp add: comprehension_Inr_iff)
  have "?g (m ! i) = Inr (lens ! i)"
    using rel assms(4) by (simp add: list_all2_conv_all_nth)
  with assms(5) have "T < int (lens ! i)"
    by (simp add: mel_length_exceeds)
  with assms(4) have i: "i \<in> set (filter (\<lambda>idx. T < int (lens ! idx)) [0..<length m])"
    by simp
  let ?idxs = "filter (\<lambda>idx. T < int (lens ! idx)) [0..<length m]"
  have m: "select m ?idxs = Inr (map ((!) m) ?idxs)"
    by (simp add: select_eq list_all_iff)
  have "select c ?idxs = Inl IndexError \<or>
        (select c ?idxs = Inr (map ((!) c) ?idxs) \<and> select d ?idxs = Inl IndexError)"
    using i assms(6) by (auto simp: select_eq list_all_iff)
  with c m have "snd (filter_by_threshold ?load T (m, c, d)) = Inl IndexError"
    by (auto simp: filter_by_threshold_def Let_def)
  with assms(1,2) have "snd (prepare ev a) = Inl IndexError"
    by (auto simp: prepare_def split: prod.splits)
  then show ?thesis
    by (simp add: snd_init)
qed

theorem filter_index_error_witness:
  "found_files short_env short_args0
      = ([''dump/a-norm-feats.npy'', ''dump/b-norm-feats.npy''], [''dump/a-ids.npy''],
         [''dump/a-durations.npy''])
   \<and> snd (init short_env short_args0) = Inl IndexError"
proof -
  have t: "mel_length_threshold short_args0 = Some 0"
    by (simp add: short_args0_def)
  have f: "found_files short_env short_args0
      = ([''dump/a-norm-feats.npy'', ''dump/b-norm-feats.npy''], [''dump/a-ids.npy''],
         [''dump/a-durations.npy''])"
    by code_simp
  have l: "list_all (\<lambda>f. \<not> isl (arg_mel_load_fn short_args0 f))
             [''dump/a-norm-feats.npy'', ''dump/b-norm-feats.npy'']"
    by (simp add: short_args0_def ex_args_def ex_mel_load_def)
  have e: "exceeds (arg_mel_load_fn short_args0) 0
             ([''dump/a-norm-feats.npy'', ''dump/b-norm-feats.npy''] ! 1)"
    by (simp add: short_args0_def ex_args_def ex_mel_load_def exceeds_def shape0_def)
  from filter_index_error [OF t f l _ e] f show ?thesis
    by simp
qed

text \<open>
  C9 as stated fails: the charactor list (one file) is strictly shorter than the mel list
  (two files) and a threshold is given, but the mel file at the position that the charactor
  list lacks is filtered out, so no index error is raised and the construction succeeds.
\<close>

theorem short_charactor_list_accepted:
  "found_files short_env short_args
      = ([''dump/a-norm-feats.npy'', ''dump/b-norm-feats.npy''], [''dump/a-ids.npy''],
         [''dump/a-durations.npy''])
   \<and> mel_length_threshold short_args = Some 1
   \<and> fst (init short_env short_args) = [FilteredByThreshold 2 1]
   \<and> (case snd (init short_env short_args) of
         Inl e \<Rightarrow> False
       | Inr ds \<Rightarrow> mel_files ds = [''dump/a-norm-feats.npy'']
                 \<and> charactor_files ds = [''dump/a-ids.npy''])"
  by code_simp

subsection \<open>The generator\<close>

lemma length_yields: "length (fst (yields f xs)) \<le> length xs"
  by (induction xs) (auto split: sum.splits prod.splits)

lemma generator_at_most_four: "length (fst (generator ds ids)) \<le> 4"
proof -
  have "length (fst (generator ds ids)) \<le> length (enumerate 0 (take 4 ids))"
    unfolding generator_def by (rule length_yields)
  then show ?thesis by simp
qed

text \<open>
  C1. The claim asks for one tuple per utterance id. For the directory with five samples
  the dataset has five utterance ids, \<^verbatim>\<open>get_args\<close> returns the list that holds their list, and
  one full pass of the generator, called on the five ids as \<^verbatim>\<open>create\<close> does, ends normally
  after four tuples.
\<close>

theorem generator_stops_after_four:
  "(case snd (init five_env ex_args) of
      Inl e \<Rightarrow> False
    | Inr ds \<Rightarrow> get_len_dataset ds = 5
        \<and> get_args ds = [[''a'', ''b'', ''c'', ''d'', ''e'']]
        \<and> generator ds (utt_ids ds) =
            ([Item3 [5, 6, 7] [1, 1, 1] (Mel 2 [[1, 2], [3, 4], [5, 6]]),
              Item3 [8] [1] (Mel 2 [[7, 8]]),
              Item3 [9, 10] [2, 1] (Mel 2 [[9, 10], [11, 12], [13, 14]]),
              Item3 [11, 12] [1, 1] (Mel 2 [[15, 16], [17, 18]])], None))"
  by code_simp

lemma yields_nth:
  "k < length (fst (yields f xs)) \<Longrightarrow> k < length xs \<and> f (xs ! k) = Inr (fst (yields f xs) ! k)"
proof (induction xs arbitrary: k)
  case Nil
  then show ?case by simp
next
  case (Cons x xs)
  show ?case
  proof (cases "f x")
    case (Inl e)
    with Cons.prems show ?thesis by simp
  next
    case (Inr y)
    with Cons show ?thesis
      by (cases k) (auto split: prod.splits)
  qed
qed

subsection \<open>The utterance id of a yielded tuple\<close>

lemma replace_with_empty_absent:
  "\<not> str_contains old s \<Longrightarrow> replace_with_empty old s = s"
  by (induction s) auto

lemma suffix_str_contains: "suffix old s \<Longrightarrow> str_contains old s"
  by (induction s) (auto simp: suffix_Cons)

lemma replace_with_empty_suffix:
  assumes "old = h # t" and "h \<notin> set t" and "\<not> str_contains old stem"
  shows "replace_with_empty old (stem @ old) = stem"
  using assms(3)
proof (induction stem)
  case Nil
  show ?case
    by (simp add: assms(1))
next
  case (Cons x xs)
  then have np: "\<not> prefix old (x # xs)" and ih: "replace_with_empty old (xs @ old) = xs"
    by simp_all
  have "\<not> prefix old ((x # xs) @ old)"
  proof
    assume "prefix old ((x # xs) @ old)"
    then have "prefix old (x # xs) \<or> (\<exists>us. old = (x # xs) @ us \<and> prefix us old)"
      by (simp only: prefix_append)
    with np obtain us where us: "old = (x # xs) @ us" "prefix us old"
      by blast
    show False
    proof (cases us)
      case Nil
      with us np show False by simp
    next
      case (Cons u us')
      with us assms(1) have "u = h" and "t = xs @ u # us'"
        by (auto simp: prefix_Cons)
      with assms(2) show False by simp
    qed
  qed
  with ih show ?case
    by simp
qed

lemma strip_suffix_append: "strip_suffix suf (stem @ suf) = stem"
  unfolding strip_suffix_def using suffixI [of "stem @ suf" stem suf] by simp

lemma utt_id_of_cases:
  "(basename f = stem @ ''-ids.npy'' \<and> \<not> str_contains ''-ids.npy'' stem \<longrightarrow>
      utt_id_of f = stem \<and> strip_suffix ''-ids.npy'' (basename f) = stem)
 \<and> (\<not> str_contains ''-ids.npy'' (basename f) \<longrightarrow>
      utt_id_of f = basename f \<and> strip_suffix ''-ids.npy'' (basename f) = basename f)"
proof (intro conjI impI)
  assume h: "basename f = stem @ ''-ids.npy'' \<and> \<not> str_contains ''-ids.npy'' stem"
  have "replace_with_empty ''-ids.npy'' (stem @ ''-ids.npy'') = stem"
    by (rule replace_with_empty_suffix [where h = "CHR ''-''" and t = "''ids.npy''"])
      (use h in simp_all)
  with h show "utt_id_of f = stem"
    by (simp add: utt_id_of_def)
  from h show "strip_suffix ''-ids.npy'' (basename f) = stem"
    by (simp only: strip_suffix_append)
next
  assume h: "\<not> str_contains ''-ids.npy'' (basename f)"
  then show "utt_id_of f = basename f"
    by (simp add: utt_id_of_def replace_with_empty_absent)
  from h have "\<not> suffix ''-ids.npy'' (basename f)"
    by (auto dest: suffix_str_contains)
  then show "strip_suffix ''-ids.npy'' (basename f) = basename f"
    by (simp add: strip_suffix_def)
qed

text \<open>
  C7 (amended). For a constructed dataset with \<^verbatim>\<open>return_utt_id\<close> true, the first element of
  the \<open>k\<close>-th tuple that the generator yields is the basename of the \<open>k\<close>-th charactor file
  with every occurrence of \<^verbatim>\<open>-ids.npy\<close> removed, and the charactor array of that tuple is
  loaded from that file. This is the basename with the suffix \<^verbatim>\<open>-ids.npy\<close> stripped when the
  basename ends with \<^verbatim>\<open>-ids.npy\<close> and holds it nowhere before, and when the basename does not
  hold \<^verbatim>\<open>-ids.npy\<close> at all.
\<close>

theorem yielded_utt_id:
  assumes "init ev a = (logged, Inr ds)" and "return_utt_id ds"
    and "k < length (fst (generator ds (utt_ids ds)))"
  shows "item_utt_id (fst (generator ds (utt_ids ds)) ! k)
           = Some (replace_with_empty ''-ids.npy'' (basename (charactor_files ds ! k)))
       \<and> call (charactor_load_fn ds) (charactor_files ds ! k)
           = Inr (item_charactor (fst (generator ds (utt_ids ds)) ! k))
       \<and> (\<forall>stem. basename (charactor_files ds ! k) = stem @ ''-ids.npy''
              \<and> \<not> str_contains ''-ids.npy'' stem
            \<longrightarrow> item_utt_id (fst (generator ds (utt_ids ds)) ! k)
                  = Some (strip_suffix ''-ids.npy'' (basename (charactor_files ds ! k))))
       \<and> (\<not> str_contains ''-ids.npy'' (basename (charactor_files ds ! k))
            \<longrightarrow> item_utt_id (fst (generator ds (utt_ids ds)) ! k)
                  = Some (strip_suffix ''-ids.npy'' (basename (charactor_files ds ! k))))"
proof -
  from assms(1) obtain m c d where cs: "check_and_set a (m, c, d) = Inr ds"
    by (auto simp: init_Inr_iff)
  note f = check_and_set_Inr [OF cs]
  let ?ys = "fst (generator ds (utt_ids ds))"
  let ?xs = "enumerate 0 (take 4 (utt_ids ds))"
  from assms(3) have k: "k < length ?xs" and y: "generator_body ds (?xs ! k) = Inr (?ys ! k)"
    using yields_nth [of k "generator_body ds" ?xs]
    by (simp_all add: generator_def)
  from k have k4: "k < 4" and kn: "k < length (utt_ids ds)"
    by simp_all
  then have "?xs ! k = (k, utt_ids ds ! k)"
    by (simp add: nth_enumerate_eq)
  also from kn f have "utt_ids ds ! k = utt_id_of (charactor_files ds ! k)"
    by simp
  finally have x: "?xs ! k = (k, utt_id_of (charactor_files ds ! k))" .
  from kn f have kc: "k < length (charactor_files ds)"
    by simp
  define yk where "yk = ?ys ! k"
  with y x have "generator_body ds (k, utt_id_of (charactor_files ds ! k)) = Inr yk"
    by simp
  then obtain cc dd mm where
    "yk = Item4 (utt_id_of (charactor_files ds ! k)) cc dd mm"
    and ld: "call (charactor_load_fn ds) (charactor_files ds ! k) = Inr cc"
    using assms(2) kc
    by (auto simp: generator_body_def bindE_Inr_iff getitem_def split: if_splits)
  then have it: "?ys ! k = Item4 (utt_id_of (charactor_files ds ! k)) cc dd mm"
    by (simp add: yk_def)
  have u: "item_utt_id (?ys ! k) = Some (utt_id_of (charactor_files ds ! k))"
    by (simp add: it)
  from u have 1: "item_utt_id (?ys ! k)
      = Some (replace_with_empty ''-ids.npy'' (basename (charactor_files ds ! k)))"
    by (simp add: utt_id_of_def)
  from ld it have 2: "call (charactor_load_fn ds) (charactor_files ds ! k)
      = Inr (item_charactor (?ys ! k))"
    by simp
  from u utt_id_of_cases [of "charactor_files ds ! k"]
  have 3: "\<forall>stem. basename (charactor_files ds ! k) = stem @ ''-ids.npy''
              \<and> \<not> str_contains ''-ids.npy'' stem
            \<longrightarrow> item_utt_id (?ys ! k)
                  = Some (strip_suffix ''-ids.npy'' (basename (charactor_files ds ! k)))"
    by (metis utt_id_of_cases)
  from u utt_id_of_cases [of "charactor_files ds ! k"]
  have 4: "\<not> str_contains ''-ids.npy'' (basename (charactor_files ds ! k))
            \<longrightarrow> item_utt_id (?ys ! k)
                  = Some (strip_suffix ''-ids.npy'' (basename (charactor_files ds ! k)))"
    by simp
  from 1 2 3 4 show ?thesis
    by blast
qed

theorem yielded_utt_id_witness:
  "\<exists>ds. init ex_env ex_args_with_id = ([], Inr ds) \<and> return_utt_id ds
      \<and> charactor_files ds ! 1 = ''dump/b-ids.npy''
      \<and> item_utt_id (fst (generator ds (utt_ids ds)) ! 1) = Some ''b''
      \<and> strip_suffix ''-ids.npy'' (basename (charactor_files ds ! 1)) = ''b''"
proof -
  have "\<not> isl (snd (init ex_env ex_args_with_id))"
    by code_simp
  then obtain ds where "snd (init ex_env ex_args_with_id) = Inr ds"
    by (cases "snd (init ex_env ex_args_with_id)") auto
  moreover have "fst (init ex_env ex_args_with_id) = []"
    by code_simp
  ultimately have i: "init ex_env ex_args_with_id = ([], Inr ds)"
    by (metis prod.collapse)
  have "(let ds' = projr (snd (init ex_env ex_args_with_id))
         in return_utt_id ds' \<and> 1 < length (fst (generator ds' (utt_ids ds')))
          \<and> charactor_files ds' ! 1 = ''dump/b-ids.npy'')"
    by code_simp
  with i have r: "return_utt_id ds" and k: "1 < length (fst (generator ds (utt_ids ds)))"
    and c: "charactor_files ds ! 1 = ''dump/b-ids.npy''"
    by (simp_all add: Let_def)
  have b: "basename ''dump/b-ids.npy'' = ''b'' @ ''-ids.npy'' \<and> \<not> str_contains ''-ids.npy'' ''b''"
    by (simp add: basename_def)
  from yielded_utt_id [OF i r k] b
  have "item_utt_id (fst (generator ds (utt_ids ds)) ! 1)
      = Some (strip_suffix ''-ids.npy'' (basename (charactor_files ds ! 1)))"
    unfolding c by blast
  moreover have "strip_suffix ''-ids.npy'' (basename ''dump/b-ids.npy'') = ''b''"
    by code_simp
  ultimately show ?thesis
    using i r c by auto
qed

text \<open>
  C7 as stated fails: for the charactor file \<^verbatim>\<open>dump/x-ids.npy-ids.npy\<close> the yielded id is
  \<^verbatim>\<open>x\<close>, and the basename with its suffix stripped is \<^verbatim>\<open>x-ids.npy\<close>.
\<close>

theorem utt_id_not_suffix_stripped:
  "(case snd (init twice_env twice_args) of
      Inl e \<Rightarrow> False
    | Inr ds \<Rightarrow> return_utt_id ds
        \<and> charactor_files ds = [''dump/x-ids.npy-ids.npy'']
        \<and> map item_utt_id (fst (generator ds (utt_ids ds))) = [Some ''x'']
        \<and> strip_suffix ''-ids.npy'' (basename (charactor_files ds ! 0)) = ''x-ids.npy'')"
  by code_simp

subsection \<open>The batching pipeline\<close>

lemma fold_max_ge: "a \<le> fold max xs (a::nat) \<and> (\<forall>x\<in>set xs. x \<le> fold max xs a)"
proof (induction xs arbitrary: a)
  case Nil
  show ?case by simp
next
  case (Cons y ys)
  from Cons [of "max y a"] show ?case
    by auto
qed

lemma max_size_ge: "x \<in> set xs \<Longrightarrow> x \<le> max_size xs"
  using fold_max_ge [of 0 xs] by (simp add: max_size_def)

lemma max_size_Max: "xs \<noteq> [] \<Longrightarrow> max_size xs = Max (set xs)"
proof -
  assume "xs \<noteq> []"
  have "max_size xs = Max (set (0 # xs))"
    unfolding max_size_def by (simp only: Max.set_eq_fold)
  also from \<open>xs \<noteq> []\<close> have "\<dots> = Max (set xs)"
    by simp
  finally show ?thesis .
qed

lemma pad_batch_None:
  "pad_batch [[None], [None], [None, None]] b =
     Inr \<lparr> charactors = map (pad_vector (max_size (map length (map item_charactor b))))
                           (map item_charactor b),
           durations = map (pad_vector (max_size (map length (map item_duration b))))
                          (map item_duration b),
           mels = map (pad_mel (max_size (map shape0 (map item_mel b)))
                               (max_size (map n_feats (map item_mel b))))
                      (map item_mel b) \<rparr>"
  by (simp add: pad_batch_def padded_dim_def Let_def list_all_iff max_size_ge)

lemma yields_total:
  "(\<forall>x\<in>set xs. \<not> isl (f x)) \<Longrightarrow> yields f xs = (map (\<lambda>x. projr (f x)) xs, None)"
proof (induction xs)
  case Nil
  show ?case by simp
next
  case (Cons x xs)
  then show ?case
    by (cases "f x") auto
qed

lemma yields_pad_batch:
  "yields (pad_batch [[None], [None], [None, None]]) bs
     = (map (\<lambda>b. projr (pad_batch [[None], [None], [None, None]] b)) bs, None)"
  by (rule yields_total) (simp add: pad_batch_None)

lemma chunks_empty [simp]: "chunks n [] = []" "chunks 0 xs = []"
  by (simp_all add: chunks.simps)

lemma chunks_step: "0 < n \<Longrightarrow> xs \<noteq> [] \<Longrightarrow> chunks n xs = take n xs # chunks n (drop n xs)"
  by (subst chunks.simps) simp

lemma chunks_member:
  "its \<in> set (chunks n xs) \<Longrightarrow> its \<noteq> [] \<and> length its \<le> n \<and> set its \<subseteq> set xs"
proof (induction n xs rule: chunks.induct)
  case (1 n xs)
  show ?case
  proof (cases "n = 0 \<or> xs = []")
    case True
    with "1.prems" show ?thesis by auto
  next
    case False
    with "1.prems" consider "its = take n xs" | "its \<in> set (chunks n (drop n xs))"
      by (auto simp: chunks_step)
    then show ?thesis
    proof cases
      case 1
      with False show ?thesis
        by (auto dest: in_set_takeD)
    next
      case 2
      with "1.IH" False show ?thesis
        by (auto dest: in_set_dropD)
    qed
  qed
qed

lemma concat_chunks: "0 < n \<Longrightarrow> concat (chunks n xs) = xs"
proof (induction n xs rule: chunks.induct)
  case (1 n xs)
  then show ?case
    by (cases "xs = []") (simp_all add: chunks_step)
qed

lemma batch_iteration_None:
  "batch_iteration n [[None], [None], [None, None]] (xs, r) = (bs, r') \<Longrightarrow>
     r' = r \<and> (\<forall>b\<in>set bs. \<exists>its \<in> set (chunks n xs).
                  pad_batch [[None], [None], [None, None]] its = Inr b)"
  by (cases r) (auto simp: batch_iteration_def yields_pad_batch pad_batch_None)

lemma create_Inr_iff:
  "create reorder cast ds allow_cache batch_size is_shuffle = Inr p \<longleftrightarrow>
     \<not> return_utt_id ds \<and> 0 < batch_size \<and> (is_shuffle \<longrightarrow> 0 < get_len_dataset ds)
   \<and> p = \<lparr> element_types = [tf_int32, tf_int32, tf_float32],
           iteration = batch_iteration batch_size [[None], [None], [None, None]]
             (if is_shuffle
              then (case snd (generator ds (utt_ids ds)) of
                      None \<Rightarrow> (reorder (map (convert cast) (fst (generator ds (utt_ids ds)))), None)
                    | Some e \<Rightarrow> ([], Some e))
              else (map (convert cast) (fst (generator ds (utt_ids ds))),
                    snd (generator ds (utt_ids ds)))) \<rparr>"
  by (auto simp: create_def Let_def bindE_Inr_iff shuffle_def padded_batch_def cache_def
      prefetch_def from_generator_def get_output_dtypes_def get_args_def split: if_splits)

text \<open>
  C10. With \<^verbatim>\<open>return_utt_id\<close> true the elements have four components (a string and three
  arrays) while \<^verbatim>\<open>padded_batch\<close> is given padded shapes for three, so \<^verbatim>\<open>create\<close> fails (with the
  structure error for every constructed dataset) and no batch can be obtained. With
  \<^verbatim>\<open>return_utt_id\<close> false, a positive batch size and a non-empty dataset, \<^verbatim>\<open>create\<close> returns a
  pipeline; its iteration ends as the generator ends, and without shuffling the batches
  hold all the tuples that the generator yields.
\<close>

theorem create_only_without_utt_id:
  "(return_utt_id ds \<longrightarrow>
      length (get_output_dtypes ds) = 4
    \<and> isl (create reorder cast ds allow_cache batch_size is_shuffle)
    \<and> (0 < get_len_dataset ds \<longrightarrow>
         create reorder cast ds allow_cache batch_size is_shuffle = Inl StructureError))
 \<and> (\<not> return_utt_id ds \<and> 0 < batch_size \<and> 0 < get_len_dataset ds \<longrightarrow>
      length (get_output_dtypes ds) = 3
    \<and> (\<exists>p. create reorder cast ds allow_cache batch_size is_shuffle = Inr p
         \<and> snd (iteration p) = snd (generator ds (utt_ids ds))
         \<and> (\<not> is_shuffle \<and> snd (generator ds (utt_ids ds)) = None \<longrightarrow>
              sum_list (map (\<lambda>b. length (charactors b)) (fst (iteration p)))
                = length (fst (generator ds (utt_ids ds))))))"
proof (intro conjI impI)
  assume r: "return_utt_id ds"
  then show "length (get_output_dtypes ds) = 4"
    by (simp add: get_output_dtypes_def)
  from r show "isl (create reorder cast ds allow_cache batch_size is_shuffle)"
    by (cases "create reorder cast ds allow_cache batch_size is_shuffle")
      (simp_all add: create_Inr_iff)
  assume "0 < get_len_dataset ds"
  with r show "create reorder cast ds allow_cache batch_size is_shuffle = Inl StructureError"
    by (simp add: create_def Let_def shuffle_def padded_batch_def cache_def
        from_generator_def get_output_dtypes_def get_args_def)
next
  assume h: "\<not> return_utt_id ds \<and> 0 < batch_size \<and> 0 < get_len_dataset ds"
  then show "length (get_output_dtypes ds) = 3"
    by (simp add: get_output_dtypes_def)
  let ?sh = "[[None], [None], [None, None]] :: nat option list list"
  let ?src = "if is_shuffle
              then (case snd (generator ds (utt_ids ds)) of
                      None \<Rightarrow> (reorder (map (convert cast) (fst (generator ds (utt_ids ds)))), None)
                    | Some e \<Rightarrow> ([], Some e))
              else (map (convert cast) (fst (generator ds (utt_ids ds))),
                    snd (generator ds (utt_ids ds)))"
  let ?p = "\<lparr> element_types = [tf_int32, tf_int32, tf_float32],
           iteration = batch_iteration batch_size ?sh ?src \<rparr>"
  from h have c: "create reorder cast ds allow_cache batch_size is_shuffle = Inr ?p"
    by (simp add: create_Inr_iff)
  obtain xs r where g: "generator ds (utt_ids ds) = (xs, r)"
    by (cases "generator ds (utt_ids ds)")
  have s: "snd (iteration ?p) = snd (generator ds (utt_ids ds))"
    by (cases r; cases is_shuffle)
      (simp_all add: g batch_iteration_def yields_pad_batch)
  have n: "sum_list (map (\<lambda>b. length (charactors b)) (fst (iteration ?p)))
      = length (fst (generator ds (utt_ids ds)))"
    if "\<not> is_shuffle \<and> snd (generator ds (utt_ids ds)) = None"
  proof -
    from that g have "fst (iteration ?p)
        = map (\<lambda>b. projr (pad_batch ?sh b)) (chunks batch_size (map (convert cast) xs))"
      by (simp add: batch_iteration_def yields_pad_batch)
    then have "map (\<lambda>b. length (charactors b)) (fst (iteration ?p))
        = map length (chunks batch_size (map (convert cast) xs))"
      by (simp add: pad_batch_None comp_def)
    then have "sum_list (map (\<lambda>b. length (charactors b)) (fst (iteration ?p)))
        = length (concat (chunks batch_size (map (convert cast) xs)))"
      by (simp add: length_concat)
    with h g show ?thesis
      by (simp add: concat_chunks)
  qed
  from c s n show "\<exists>p. create reorder cast ds allow_cache batch_size is_shuffle = Inr p
         \<and> snd (iteration p) = snd (generator ds (utt_ids ds))
         \<and> (\<not> is_shuffle \<and> snd (generator ds (utt_ids ds)) = None \<longrightarrow>
              sum_list (map (\<lambda>b. length (charactors b)) (fst (iteration p)))
                = length (fst (generator ds (utt_ids ds))))"
    by blast
qed

theorem create_only_without_utt_id_witness:
  "(\<exists>ds. init ex_env ex_args_with_id = ([], Inr ds) \<and> return_utt_id ds
       \<and> create id keep_float32 ds False 2 False = Inl StructureError)
 \<and> (\<exists>ds p. init ex_env ex_args = ([], Inr ds) \<and> \<not> return_utt_id ds
       \<and> create id keep_float32 ds False 2 False = Inr p \<and> snd (iteration p) = None
       \<and> sum_list (map (\<lambda>b. length (charactors b)) (fst (iteration p))) = 3)"
proof -
  have "\<not> isl (snd (init ex_env ex_args_with_id))" and "fst (init ex_env ex_args_with_id) = []"
    by code_simp+
  then obtain ds1 where i1: "init ex_env ex_args_with_id = ([], Inr ds1)"
    by (cases "snd (init ex_env ex_args_with_id)") (auto simp: prod_eq_iff)
  have "(let ds = projr (snd (init ex_env ex_args_with_id))
         in return_utt_id ds \<and> 0 < get_len_dataset ds)"
    by code_simp
  with i1 have r1: "return_utt_id ds1" and n1: "0 < get_len_dataset ds1"
    by (simp_all add: Let_def)
  with create_only_without_utt_id [of ds1 id keep_float32 False 2 False]
  have c1: "create id keep_float32 ds1 False 2 False = Inl StructureError"
    by blast
  have "\<not> isl (snd (init ex_env ex_args))" and "fst (init ex_env ex_args) = []"
    by code_simp+
  then obtain ds2 where i2: "init ex_env ex_args = ([], Inr ds2)"
    by (cases "snd (init ex_env ex_args)") (auto simp: prod_eq_iff)
  have "(let ds = projr (snd (init ex_env ex_args))
         in \<not> return_utt_id ds \<and> 0 < get_len_dataset ds
          \<and> generator ds (utt_ids ds) = (fst (generator ds (utt_ids ds)), None)
          \<and> length (fst (generator ds (utt_ids ds))) = 3)"
    by code_simp
  with i2 have r2: "\<not> return_utt_id ds2" and n2: "0 < get_len_dataset ds2"
    and g2: "snd (generator ds2 (utt_ids ds2)) = None"
    and l2: "length (fst (generator ds2 (utt_ids ds2))) = 3"
    by (simp_all add: Let_def prod_eq_iff)
  with create_only_without_utt_id [of ds2 id keep_float32 False 2 False]
  obtain p where "create id keep_float32 ds2 False 2 False = Inr p" "snd (iteration p) = None"
    "sum_list (map (\<lambda>b. length (charactors b)) (fst (iteration p))) = 3"
    by auto
  with i1 r1 c1 i2 r2 show ?thesis
    by blast
qed

text \<open>
  C5 (amended). Every batch of a pipeline built by \<^verbatim>\<open>create\<close> is the padding of a non-empty
  run \<open>its\<close> of at most \<open>batch_size\<close> tuples of the (possibly shuffled) generator output as
  \<^verbatim>\<open>from_generator\<close> has converted it to \<^verbatim>\<open>int32\<close>, \<^verbatim>\<open>int32\<close> and \<^verbatim>\<open>float32\<close>:
  each charactor array and each duration array is followed by zeros up to the maximum
  length in the batch, and each mel array is followed by zero frames up to the maximum
  number of frames in the batch, with every frame extended by zeros to the maximum feature
  width in the batch. The feature axis is therefore left as it is exactly for the arrays
  whose width is the maximum of the batch, in particular when all mel arrays of the batch
  have the same feature width.
\<close>

theorem padded_batches:
  assumes "create reorder cast ds allow_cache batch_size is_shuffle = Inr p"
    and "b \<in> set (fst (iteration p))"
  shows "\<exists>its. its \<noteq> [] \<and> length its \<le> batch_size
      \<and> set its \<subseteq> set (if is_shuffle
                        then reorder (map (convert cast) (fst (generator ds (utt_ids ds))))
                        else map (convert cast) (fst (generator ds (utt_ids ds))))
      \<and> length (charactors b) = length its \<and> length (durations b) = length its
      \<and> length (mels b) = length its
      \<and> (\<forall>n<length its.
           (let c = item_charactor (its ! n); d = item_duration (its ! n);
                m = item_mel (its ! n);
                c_max = Max (set (map (length \<circ> item_charactor) its));
                d_max = Max (set (map (length \<circ> item_duration) its));
                t_max = Max (set (map (shape0 \<circ> item_mel) its));
                f_max = Max (set (map (n_feats \<circ> item_mel) its))
            in charactors b ! n = c @ replicate (c_max - length c) 0
             \<and> durations b ! n = d @ replicate (d_max - length d) 0
             \<and> mels b ! n =
                 Mel f_max (map (\<lambda>row. row @ replicate (f_max - length row) 0) (frames m)
                            @ replicate (t_max - shape0 m) (replicate f_max 0))
             \<and> (wf_mel m \<and> n_feats m = f_max \<longrightarrow>
                  mels b ! n =
                    Mel (n_feats m)
                      (frames m @ replicate (t_max - shape0 m) (replicate (n_feats m) 0)))))"
proof -
  let ?sh = "[[None], [None], [None, None]] :: nat option list list"
  let ?gen = "generator ds (utt_ids ds)"
  let ?conv = "map (convert cast) (fst ?gen)"
  let ?src = "if is_shuffle
              then (case snd ?gen of
                      None \<Rightarrow> (reorder ?conv, None)
                    | Some e \<Rightarrow> ([], Some e))
              else (?conv, snd ?gen)"
  from assms(1) have it: "iteration p = batch_iteration batch_size ?sh ?src"
    by (simp add: create_Inr_iff)
  obtain xs r where src: "?src = (xs, r)"
    by (cases ?src)
  have xs: "set xs \<subseteq> set (if is_shuffle then reorder ?conv else ?conv)"
    using src by (cases "snd ?gen") (auto split: if_splits)
  obtain bs r' where bi: "batch_iteration batch_size ?sh (xs, r) = (bs, r')"
    by (cases "batch_iteration batch_size ?sh (xs, r)")
  with assms(2) it src have "b \<in> set bs"
    by simp
  with batch_iteration_None [OF bi] obtain its where
    its: "its \<in> set (chunks batch_size xs)" and pb: "pad_batch ?sh its = Inr b"
    by blast
  from chunks_member [OF its] xs have 1: "its \<noteq> []" "length its \<le> batch_size"
    "set its \<subseteq> set (if is_shuffle then reorder ?conv else ?conv)"
    by auto
  from pb have b: "charactors b = map (pad_vector (max_size (map length (map item_charactor its))))
                           (map item_charactor its)"
    "durations b = map (pad_vector (max_size (map length (map item_duration its))))
                          (map item_duration its)"
    "mels b = map (pad_mel (max_size (map shape0 (map item_mel its)))
                               (max_size (map n_feats (map item_mel its))))
                      (map item_mel its)"
    by (auto simp: pad_batch_None)
  from 1(1) have mx:
    "max_size (map length (map item_charactor its)) = Max (set (map (length \<circ> item_charactor) its))"
    "max_size (map length (map item_duration its)) = Max (set (map (length \<circ> item_duration) its))"
    "max_size (map shape0 (map item_mel its)) = Max (set (map (shape0 \<circ> item_mel) its))"
    "max_size (map n_feats (map item_mel its)) = Max (set (map (n_feats \<circ> item_mel) its))"
    by (simp_all add: max_size_Max)
  have wf: "map (\<lambda>row. row @ replicate (n_feats m - length row) 0) (frames m) = frames m"
    if "wf_mel m" for m :: "float32 mel"
    using that by (intro map_idI) (simp add: wf_mel_def list_all_iff)
  have 2: "length (charactors b) = length its" "length (durations b) = length its"
    "length (mels b) = length its"
    by (simp_all add: b)
  have 3: "\<forall>n<length its.
           (let c = item_charactor (its ! n); d = item_duration (its ! n);
                m = item_mel (its ! n);
                c_max = Max (set (map (length \<circ> item_charactor) its));
                d_max = Max (set (map (length \<circ> item_duration) its));
                t_max = Max (set (map (shape0 \<circ> item_mel) its));
                f_max = Max (set (map (n_feats \<circ> item_mel) its))
            in charactors b ! n = c @ replicate (c_max - length c) 0
             \<and> durations b ! n = d @ replicate (d_max - length d) 0
             \<and> mels b ! n =
                 Mel f_max (map (\<lambda>row. row @ replicate (f_max - length row) 0) (frames m)
                            @ replicate (t_max - shape0 m) (replicate f_max 0))
             \<and> (wf_mel m \<and> n_feats m = f_max \<longrightarrow>
                  mels b ! n =
                    Mel (n_feats m)
                      (frames m @ replicate (t_max - shape0 m) (replicate (n_feats m) 0))))"
    unfolding b mx Let_def
    by (auto simp: pad_vector_def pad_mel_def shape0_def dest: wf)
  from 1 2 3 show ?thesis
    by blast
qed

theorem padded_batches_witness:
  "\<exists>ds p b (its :: float32 item list). init ex_env ex_args = ([], Inr ds) \<and> create id keep_float32 ds False 2 False = Inr p
     \<and> b \<in> set (fst (iteration p))
     \<and> charactors b = [[5, 6, 7], [8, 0, 0]]
     \<and> durations b = [[1, 1, 1], [1, 0, 0]]
     \<and> mels b = [Mel 2 [[1, 2], [3, 4], [5, 6]], Mel 2 [[7, 8], [0, 0], [0, 0]]]
     \<and> its \<noteq> [] \<and> length its \<le> 2 \<and> length (charactors b) = length its"
proof -
  have "\<not> isl (snd (init ex_env ex_args))" and "fst (init ex_env ex_args) = []"
    by code_simp+
  then obtain ds where i: "init ex_env ex_args = ([], Inr ds)"
    by (cases "snd (init ex_env ex_args)") (auto simp: prod_eq_iff)
  then have ds: "projr (snd (init ex_env ex_args)) = ds"
    by simp
  have "\<not> isl (create id keep_float32 (projr (snd (init ex_env ex_args))) False 2 False)"
    by code_simp
  then obtain p where c: "create id keep_float32 ds False 2 False = Inr p"
    unfolding ds by (cases "create id keep_float32 ds False 2 False") simp_all
  then have p: "projr (create id keep_float32 (projr (snd (init ex_env ex_args))) False 2 False) = p"
    unfolding ds by simp
  have "fst (iteration (projr (create id keep_float32 (projr (snd (init ex_env ex_args))) False 2 False)))
      \<noteq> []"
    by code_simp
  then have ne: "fst (iteration p) \<noteq> []"
    unfolding p .
  have "charactors
         (hd (fst (iteration (projr (create id keep_float32 (projr (snd (init ex_env ex_args))) False 2 False)))))
      = [[5, 6, 7], [8, 0, 0]]"
    by code_simp
  then have v1: "charactors (hd (fst (iteration p))) = [[5, 6, 7], [8, 0, 0]]"
    unfolding p .
  have "durations
         (hd (fst (iteration (projr (create id keep_float32 (projr (snd (init ex_env ex_args))) False 2 False)))))
      = [[1, 1, 1], [1, 0, 0]]"
    by code_simp
  then have v2: "durations (hd (fst (iteration p))) = [[1, 1, 1], [1, 0, 0]]"
    unfolding p .
  have "mels
         (hd (fst (iteration (projr (create id keep_float32 (projr (snd (init ex_env ex_args))) False 2 False)))))
      = [Mel 2 [[1, 2], [3, 4], [5, 6]], Mel 2 [[7, 8], [0, 0], [0, 0]]]"
    by code_simp
  then have v3: "mels (hd (fst (iteration p)))
      = [Mel 2 [[1, 2], [3, 4], [5, 6]], Mel 2 [[7, 8], [0, 0], [0, 0]]]"
    unfolding p .
  from ne have m: "hd (fst (iteration p)) \<in> set (fst (iteration p))"
    by simp
  from padded_batches [OF c m]
  have "\<exists>its :: float32 item list. its \<noteq> [] \<and> length its \<le> 2
          \<and> length (charactors (hd (fst (iteration p)))) = length its"
  proof (elim exE conjE)
    fix its :: "float32 item list"
    assume a: "its \<noteq> []" "length its \<le> 2"
      "length (charactors (hd (fst (iteration p)))) = length its"
    show ?thesis
      by (rule exI [of _ its]) (simp only: a simp_thms)
  qed
  then obtain its :: "float32 item list" where t: "its \<noteq> [] \<and> length its \<le> 2
          \<and> length (charactors (hd (fst (iteration p)))) = length its" ..
  have "init ex_env ex_args = ([], Inr ds) \<and> create id keep_float32 ds False 2 False = Inr p
     \<and> hd (fst (iteration p)) \<in> set (fst (iteration p))
     \<and> charactors (hd (fst (iteration p))) = [[5, 6, 7], [8, 0, 0]]
     \<and> durations (hd (fst (iteration p))) = [[1, 1, 1], [1, 0, 0]]
     \<and> mels (hd (fst (iteration p)))
          = [Mel 2 [[1, 2], [3, 4], [5, 6]], Mel 2 [[7, 8], [0, 0], [0, 0]]]
     \<and> its \<noteq> [] \<and> length its \<le> 2
     \<and> length (charactors (hd (fst (iteration p)))) = length its"
    by (intro conjI) (rule i c m v1 v2 v3 t [THEN conjunct1] t [THEN conjunct2, THEN conjunct1]
        t [THEN conjunct2, THEN conjunct2])+
  then show ?thesis
    by (intro exI)
qed

text \<open>
  C5 as stated fails: in a batch of a mel array with two features and one with three, the
  first array is padded along its feature axis to three features.
\<close>

theorem feature_axis_padded:
  "(case snd (init ex_env wide_args) of
      Inl e \<Rightarrow> False
    | Inr ds \<Rightarrow>
        map item_mel (fst (generator ds (utt_ids ds)))
          = [Mel 2 [[1, 2], [3, 4], [5, 6]], Mel 3 [[7, 8, 9]],
             Mel 2 [[9, 10], [11, 12], [13, 14]]]
      \<and> (case create id keep_float32 ds False 2 False of
            Inl e \<Rightarrow> False
          | Inr p \<Rightarrow>
              map mels (fst (iteration p))
                = [[Mel 3 [[1, 2, 0], [3, 4, 0], [5, 6, 0]],
                    Mel 3 [[7, 8, 9], [0, 0, 0], [0, 0, 0]]],
                   [Mel 2 [[9, 10], [11, 12], [13, 14]]]]))"
  by code_simp

subsection \<open>The groups of equal keys\<close>

lemma groupby_Cons_member:
  "g \<in> set (groupby key (x # xs)) \<longleftrightarrow>
     g = x # takeWhile (\<lambda>y. key y = key x) xs
   \<or> g \<in> set (groupby key (dropWhile (\<lambda>y. key y = key x) xs))"
  by (simp add: groupby.simps(2) [of key x xs])

lemma concat_groupby: "concat (groupby key xs) = xs"
proof (induction key xs rule: groupby.induct)
  case (1 key)
  show ?case by simp
next
  case (2 key x xs)
  then show ?case
    by (simp add: groupby.simps(2) [of key x xs])
qed

lemma groupby_group:
  "g \<in> set (groupby key xs) \<Longrightarrow> g \<noteq> [] \<and> (\<forall>y\<in>set g. key y = key (hd g))"
proof (induction key xs rule: groupby.induct)
  case (1 key)
  then show ?case by simp
next
  case (2 key x xs)
  let ?P = "\<lambda>y. key y = key x"
  from "2.prems" have "g = x # takeWhile ?P xs \<or> g \<in> set (groupby key (dropWhile ?P xs))"
    by (simp only: groupby_Cons_member)
  then show ?case
  proof (elim disjE)
    assume g: "g = x # takeWhile ?P xs"
    have "key y = key (hd g)" if "y \<in> set g" for y
    proof -
      from that have "y = x \<or> y \<in> set (takeWhile ?P xs)"
        unfolding g by simp
      then have "key y = key x"
        using set_takeWhileD [of y ?P xs] by blast
      then show ?thesis
        unfolding g by simp
    qed
    moreover have "g \<noteq> []"
      unfolding g by simp
    ultimately show ?thesis
      by blast
  next
    assume "g \<in> set (groupby key (dropWhile ?P xs))"
    then show ?thesis by (rule "2.IH")
  qed
qed

lemma groupby_subset: "g \<in> set (groupby key xs) \<Longrightarrow> set g \<subseteq> set xs"
proof -
  assume "g \<in> set (groupby key xs)"
  then have "set g \<subseteq> set (concat (groupby key xs))"
    by auto
  then show ?thesis
    by (simp add: concat_groupby)
qed

lemma dropWhile_greater:
  fixes key :: "'a \<Rightarrow> 'k::linorder"
  shows "sorted (map key (x # xs)) \<Longrightarrow> y \<in> set (dropWhile (\<lambda>y. key y = key x) xs)
    \<Longrightarrow> key x < key y"
proof (induction xs)
  case Nil
  then show ?case by simp
next
  case (Cons z zs)
  show ?case
  proof (cases "key z = key x")
    case True
    with Cons show ?thesis by auto
  next
    case False
    with Cons.prems show ?thesis by fastforce
  qed
qed

lemma groupby_distinct_keys:
  fixes key :: "'a \<Rightarrow> 'k::linorder"
  shows "sorted (map key xs) \<Longrightarrow> distinct (map (\<lambda>g. key (hd g)) (groupby key xs))"
proof (induction key xs rule: groupby.induct)
  case (1 key)
  show ?case by simp
next
  case (2 key x xs)
  let ?D = "dropWhile (\<lambda>y. key y = key x) xs"
  from "2.prems" have "sorted (map key xs)"
    by simp
  then have "sorted (map key ?D)"
    by (simp add: sorted_map)
  then have d: "distinct (map (\<lambda>g. key (hd g)) (groupby key ?D))"
    by (rule "2.IH")
  have "key x \<noteq> key (hd g)" if "g \<in> set (groupby key ?D)" for g
  proof -
    from that have "hd g \<in> set g" and "set g \<subseteq> set ?D"
      by (auto dest: groupby_group groupby_subset)
    then have "key x < key (hd g)"
      using "2.prems" by (auto intro: dropWhile_greater)
    then show ?thesis by simp
  qed
  with d show ?case
    by (auto simp: groupby.simps(2) [of key x xs])
qed

lemma filter_group:
  assumes "\<forall>y\<in>set g. key y = key (hd g)"
  shows "filter (\<lambda>y. key y = k) g = (if key (hd g) = k then g else [])"
proof (cases "key (hd g) = k")
  case True
  with assms have "\<forall>y\<in>set g. key y = k"
    by metis
  then have "filter (\<lambda>y. key y = k) g = g"
    by (rule filter_True)
  with True show ?thesis
    by simp
next
  case False
  with assms have "\<forall>y\<in>set g. \<not> key y = k"
    by metis
  then have "filter (\<lambda>y. key y = k) g = []"
    by (rule filter_False)
  with False show ?thesis
    by simp
qed

lemma filter_concat_groups:
  assumes "\<forall>g\<in>set gs. g \<noteq> [] \<and> (\<forall>y\<in>set g. key y = key (hd g))"
  shows "filter (\<lambda>y. key y = k) (concat gs) = concat (filter (\<lambda>g. key (hd g) = k) gs)"
  using assms
proof (induction gs)
  case Nil
  show ?case by simp
next
  case (Cons g gs)
  from Cons.prems have "\<forall>y\<in>set g. key y = key (hd g)"
    by (blast intro: list.set_intros)
  then have g: "filter (\<lambda>y. key y = k) g = (if key (hd g) = k then g else [])"
    by (rule filter_group)
  from Cons.prems have "\<forall>g\<in>set gs. g \<noteq> [] \<and> (\<forall>y\<in>set g. key y = key (hd g))"
    by (blast intro: list.set_intros)
  then have "filter (\<lambda>y. key y = k) (concat gs) = concat (filter (\<lambda>g. key (hd g) = k) gs)"
    by (rule Cons.IH)
  with g show ?case
    by simp
qed

lemma distinct_filter_le_one:
  "distinct (map h gs) \<Longrightarrow> length (filter (\<lambda>g. h g = k) gs) \<le> 1"
proof (induction gs)
  case Nil
  show ?case by simp
next
  case (Cons a gs)
  then have d: "h a \<notin> h ` set gs" and ih: "length (filter (\<lambda>g. h g = k) gs) \<le> 1"
    by simp_all
  show ?case
  proof (cases "h a = k")
    case True
    with d have "\<forall>g\<in>set gs. \<not> h g = k"
      by blast
    then have "filter (\<lambda>g. h g = k) gs = []"
      by (rule filter_False)
    with True show ?thesis by simp
  next
    case False
    with ih show ?thesis by simp
  qed
qed

lemma mset_eq_short:
  assumes "mset xs = mset ys" and "length ys \<le> 1"
  shows "xs = ys"
proof (cases ys)
  case Nil
  with assms show ?thesis by simp
next
  case (Cons y zs)
  with assms have "ys = [y]" by simp
  with assms show ?thesis by simp
qed

lemma filter_shuffled_groups:
  assumes "mset s = mset gs" and "distinct (map h gs)"
  shows "filter (\<lambda>g. h g = k) s = filter (\<lambda>g. h g = k) gs"
proof (rule mset_eq_short)
  from assms(1) show "mset (filter (\<lambda>g. h g = k) s) = mset (filter (\<lambda>g. h g = k) gs)"
    by simp
  from assms(2) show "length (filter (\<lambda>g. h g = k) gs) \<le> 1"
    by (rule distinct_filter_le_one)
qed

lemma mset_concat_cong: "mset s = mset gs \<Longrightarrow> mset (concat s) = mset (concat gs)"
proof -
  assume "mset s = mset gs"
  then have "image_mset mset (mset s) = image_mset mset (mset gs)"
    by simp
  then have "sum_list (map mset s) = sum_list (map mset gs)"
    by (simp add: sum_mset_sum_list [symmetric])
  then show ?thesis
    by (simp add: mset_concat)
qed

text \<open>The groups of a list with ascending keys, in any order, keep every key class.\<close>

lemma filter_concat_shuffled:
  fixes key :: "'a \<Rightarrow> 'k::linorder"
  assumes "sorted (map key xs)" and "mset s = mset (groupby key xs)"
  shows "filter (\<lambda>y. key y = k) (concat s) = filter (\<lambda>y. key y = k) xs"
proof -
  let ?G = "groupby key xs"
  from assms(2) have set: "set s = set ?G"
    by (rule mset_eq_setD)
  have hs: "\<forall>g\<in>set s. g \<noteq> [] \<and> (\<forall>y\<in>set g. key y = key (hd g))"
    unfolding set by (auto dest: groupby_group)
  have hg: "\<forall>g\<in>set ?G. g \<noteq> [] \<and> (\<forall>y\<in>set g. key y = key (hd g))"
    by (auto dest: groupby_group)
  have "filter (\<lambda>y. key y = k) (concat s) = concat (filter (\<lambda>g. key (hd g) = k) s)"
    using hs by (rule filter_concat_groups)
  also have "filter (\<lambda>g. key (hd g) = k) s = filter (\<lambda>g. key (hd g) = k) ?G"
    using assms(2) groupby_distinct_keys [OF assms(1)] by (rule filter_shuffled_groups)
  also have "concat (filter (\<lambda>g. key (hd g) = k) ?G) = filter (\<lambda>y. key y = k) (concat ?G)"
    using hg by (rule filter_concat_groups [symmetric])
  finally show ?thesis
    by (simp add: concat_groupby)
qed

subsection \<open>The length-bucket shuffle\<close>

lemma permutation_of_upt:
  assumes "mset p = mset [0..<n]"
  shows "length p = n" and "list_all (\<lambda>i. i < n) p"
proof -
  from assms have "length p = length [0..<n]"
    by (rule mset_eq_length)
  then show "length p = n" by simp
  from assms have "set p = set [0..<n]"
    by (rule mset_eq_setD)
  then show "list_all (\<lambda>i. i < n) p"
    by (simp add: list_all_iff)
qed

lemma map_nth_map:
  "list_all (\<lambda>i. i < length p) idxs \<Longrightarrow> map ((!) (map f p)) idxs = map (\<lambda>i. f (p ! i)) idxs"
  by (simp add: list_all_iff)

lemma bucket_shuffle_eq:
  assumes "length m = n" and "length c = n" and "length d = n" and "length l = n"
    and "length (np_argsort ev l) = n" and "list_all (\<lambda>i. i < n) (np_argsort ev l)"
    and "list_all (\<lambda>i. i < n)
           (concat (map (map fst)
              (random_shuffle ev (groupby snd (zip [0..<n] (map ((!) l) (np_argsort ev l)))))))"
  shows "bucket_shuffle ev (m, c, d, l) =
     (let p = np_argsort ev l;
          idxs = concat (map (map fst)
                   (random_shuffle ev (groupby snd (zip [0..<n] (map ((!) l) p)))))
      in Inr (map (\<lambda>i. m ! (p ! i)) idxs, map (\<lambda>i. c ! (p ! i)) idxs,
              map (\<lambda>i. d ! (p ! i)) idxs, map (\<lambda>i. l ! (p ! i)) idxs))"
  using assms by (simp add: bucket_shuffle_def select_eq Let_def map_nth_map)

lemma zip_samples:
  "zip (map f xs) (zip (map g xs) (zip (map h xs) (map k xs))) = map (\<lambda>x. (f x, g x, h x, k x)) xs"
  by (induction xs) simp_all

lemma zip_nth_samples:
  assumes "length m = n" and "length c = n" and "length d = n" and "length l = n"
  shows "zip m (zip c (zip d l)) = map (\<lambda>i. (m ! i, c ! i, d ! i, l ! i)) [0..<n]"
  using assms by (intro nth_equalityI) simp_all


text \<open>
  C2 (amended). The bucket shuffle is applied to the four lists left by the filter, which
  have one length. When \<^verbatim>\<open>np.argsort\<close> returns a sorting permutation and \<^verbatim>\<open>random.shuffle\<close> a
  permutation, the bucket shuffle succeeds and reorders the four lists by one permutation
  \<open>perm\<close> of the positions, so the multiset of samples with their lengths is unchanged;
  \<open>perm\<close> is a concatenation of groups, every group is not empty and holds positions of
  one length, and different groups have different lengths. Within every length the
  positions come in the order in which \<^verbatim>\<open>np.argsort\<close> returned them; they come in the original
  order when the result of \<^verbatim>\<open>np.argsort\<close> keeps the original order of equal lengths (a stable
  sort).
\<close>

theorem bucket_shuffle_groups:
  assumes "argsort_contract (np_argsort ev)" and "shuffle_contract (random_shuffle ev)"
    and "length c = length m" and "length d = length m" and "length l = length m"
  shows "\<exists>(perm :: nat list) (groups :: nat list list).
      bucket_shuffle ev (m, c, d, l)
        = Inr (map ((!) m) perm, map ((!) c) perm, map ((!) d) perm, map ((!) l) perm)
    \<and> mset perm = mset [0..<length m]
    \<and> mset (zip (map ((!) m) perm) (zip (map ((!) c) perm) (zip (map ((!) d) perm) (map ((!) l) perm))))
        = mset (zip m (zip c (zip d l)))
    \<and> perm = concat groups
    \<and> (\<forall>g\<in>set groups. g \<noteq> [] \<and> (\<forall>i\<in>set g. l ! i = l ! hd g))
    \<and> distinct (map (\<lambda>g. l ! hd g) groups)
    \<and> (\<forall>k. filter (\<lambda>i. l ! i = k) perm = filter (\<lambda>i. l ! i = k) (np_argsort ev l))
    \<and> (keeps_order l (np_argsort ev l) \<longrightarrow> keeps_order l perm)"
proof -
  define n where "n = length m"
  define p where "p = np_argsort ev l"
  define il where "il = zip [0..<n] (map ((!) l) p)"
  define G where "G = groupby snd il"
  define S where "S = random_shuffle ev G"
  define f where "f = (\<lambda>e :: nat \<times> nat. p ! fst e)"
  define perm where "perm = map f (concat S)"
  define groups where "groups = map (map f) S"
  note lens = assms(3-5) [folded n_def]
  have ln: "length m = n" "length c = n" "length d = n" "length l = n"
    using lens by (simp_all add: n_def)
  from assms(1) have mp: "mset p = mset [0..<n]" and sp: "sorted (map ((!) l) p)"
    by (simp_all add: argsort_contract_def p_def ln)
  from mp have lp: "length p = n" and rp: "list_all (\<lambda>i. i < n) p"
    by (rule permutation_of_upt)+
  have fst_il: "map fst il = [0..<n]" and snd_il: "map snd il = map ((!) l) p"
    by (simp_all add: il_def lp)
  have il_mem: "fst e < n \<and> l ! (p ! fst e) = snd e" if "e \<in> set il" for e
  proof -
    from that obtain j where "j < n" and "e = (j, l ! (p ! j))"
      unfolding il_def by (auto simp: set_zip lp)
    then show ?thesis by simp
  qed
  from sp have sorted_il: "sorted (map snd il)"
    by (simp only: snd_il)
  from assms(2) have mS: "mset S = mset G"
    by (simp add: shuffle_contract_def S_def)
  then have set_S: "set S = set G"
    by (rule mset_eq_setD)
  from mS have "mset (concat S) = mset (concat G)"
    by (rule mset_concat_cong)
  then have cS: "mset (concat S) = mset il"
    by (simp add: G_def concat_groupby)
  then have set_cS: "set (concat S) = set il"
    by (rule mset_eq_setD)
  define idxs where "idxs = concat (map (map fst) S)"
  have idxs: "idxs = map fst (concat S)"
    by (simp add: idxs_def map_concat)
  have "mset idxs = image_mset fst (mset (concat S))"
    by (simp add: idxs)
  also have "\<dots> = mset (map fst il)"
    by (simp add: cS)
  finally have midxs: "mset idxs = mset [0..<n]"
    by (simp only: fst_il)
  then have ridxs: "list_all (\<lambda>i. i < n) idxs"
    by (rule permutation_of_upt)
  have perm_idxs: "perm = map ((!) p) idxs"
    by (simp add: perm_def idxs f_def)
  text \<open>the result of the function\<close>
  have "bucket_shuffle ev (m, c, d, l) =
     (let p = np_argsort ev l;
          idxs = concat (map (map fst)
                   (random_shuffle ev (groupby snd (zip [0..<n] (map ((!) l) p)))))
      in Inr (map (\<lambda>i. m ! (p ! i)) idxs, map (\<lambda>i. c ! (p ! i)) idxs,
              map (\<lambda>i. d ! (p ! i)) idxs, map (\<lambda>i. l ! (p ! i)) idxs))"
    using ln lp rp ridxs
    unfolding idxs_def S_def G_def il_def p_def by (rule bucket_shuffle_eq)
  then have 1: "bucket_shuffle ev (m, c, d, l)
        = Inr (map ((!) m) perm, map ((!) c) perm, map ((!) d) perm, map ((!) l) perm)"
    by (simp add: Let_def perm_idxs idxs_def S_def G_def il_def p_def comp_def)
  text \<open>a permutation\<close>
  have "mset perm = image_mset ((!) p) (mset idxs)"
    by (simp add: perm_idxs)
  also have "\<dots> = mset (map ((!) p) [0..<length p])"
    by (simp add: midxs lp)
  finally have "mset perm = mset p"
    by (simp only: map_nth)
  with mp have 2: "mset perm = mset [0..<length m]"
    by (simp add: n_def)
  let ?F = "\<lambda>i. (m ! i, c ! i, d ! i, l ! i)"
  have "mset (map ?F perm) = image_mset ?F (mset [0..<n])"
    using 2 by (simp add: n_def)
  then have 3: "mset (zip (map ((!) m) perm) (zip (map ((!) c) perm)
                  (zip (map ((!) d) perm) (map ((!) l) perm))))
        = mset (zip m (zip c (zip d l)))"
    by (simp add: zip_samples zip_nth_samples [OF ln])
  text \<open>the groups\<close>
  have 4: "perm = concat groups"
    by (simp add: perm_def groups_def map_concat)
  have grp: "s \<noteq> [] \<and> set s \<subseteq> set il \<and> (\<forall>e\<in>set s. snd e = snd (hd s))"
    if "s \<in> set S" for s
  proof -
    from that have "s \<in> set (groupby snd il)"
      by (simp add: set_S G_def)
    then show ?thesis
      using groupby_group [of s snd il] groupby_subset [of s snd il] by blast
  qed
  have hd_key: "l ! hd (map f s) = snd (hd s)" if "s \<in> set S" for s
  proof -
    from grp [OF that] have "s \<noteq> []"
      by blast
    moreover from this grp [OF that] have "hd s \<in> set il"
      using hd_in_set [of s] by blast
    ultimately show ?thesis
      using il_mem [of "hd s"] by (simp add: hd_map f_def)
  qed
  have 5: "\<forall>g\<in>set groups. g \<noteq> [] \<and> (\<forall>i\<in>set g. l ! i = l ! hd g)"
  proof
    fix g
    assume "g \<in> set groups"
    then obtain s where s: "s \<in> set S" and g: "g = map f s"
      by (auto simp: groups_def)
    note gs = grp [OF s]
    have "l ! i = l ! hd g" if "i \<in> set g" for i
    proof -
      from that g obtain e where e: "e \<in> set s" and i: "i = f e"
        by auto
      from e gs have "e \<in> set il"
        by blast
      moreover from e gs have "snd e = snd (hd s)"
        by blast
      ultimately have "l ! f e = snd (hd s)"
        using il_mem [of e] by (simp add: f_def)
      with hd_key [OF s] show ?thesis
        by (simp only: g i)
    qed
    moreover from gs have "g \<noteq> []"
      by (simp add: g)
    ultimately show "g \<noteq> [] \<and> (\<forall>i\<in>set g. l ! i = l ! hd g)"
      by blast
  qed
  have "map (\<lambda>g. l ! hd g) groups = map (\<lambda>s. snd (hd s)) S"
    unfolding groups_def map_map comp_def by (rule map_cong [OF refl]) (rule hd_key)
  moreover have "distinct (map (\<lambda>s. snd (hd s)) S) \<longleftrightarrow> distinct (map (\<lambda>s. snd (hd s)) G)"
    by (rule mset_eq_imp_distinct_iff) (simp add: mS)
  moreover have "distinct (map (\<lambda>s. snd (hd s)) G)"
    unfolding G_def using sorted_il by (rule groupby_distinct_keys)
  ultimately have 6: "distinct (map (\<lambda>g. l ! hd g) groups)"
    by simp
  text \<open>the order within one length\<close>
  have key_f: "(l ! f e = k) = (snd e = k)" if "e \<in> set il" for e k
    using il_mem [OF that] by (simp add: f_def)
  have map_f_il: "map f il = p"
  proof -
    have "map f il = map ((!) p) (map fst il)"
      by (simp add: f_def comp_def)
    also have "\<dots> = map ((!) p) [0..<length p]"
      by (simp only: fst_il lp)
    finally show ?thesis
      by (simp only: map_nth)
  qed
  have filt: "filter (\<lambda>i. l ! i = k) perm = filter (\<lambda>i. l ! i = k) p" for k
  proof -
    have "filter (\<lambda>i. l ! i = k) perm = map f (filter (\<lambda>e. l ! f e = k) (concat S))"
      by (simp add: perm_def filter_map comp_def)
    also have "filter (\<lambda>e. l ! f e = k) (concat S) = filter (\<lambda>e. snd e = k) (concat S)"
      by (rule filter_cong [OF refl]) (simp only: set_cS key_f)
    also have "\<dots> = filter (\<lambda>e. snd e = k) il"
      using sorted_il mS [unfolded G_def] by (rule filter_concat_shuffled)
    also have "\<dots> = filter (\<lambda>e. l ! f e = k) il"
      by (rule filter_cong [OF refl]) (simp only: key_f)
    also have "map f \<dots> = filter (\<lambda>i. l ! i = k) (map f il)"
      by (simp add: filter_map comp_def)
    finally show ?thesis
      by (simp only: map_f_il)
  qed
  then have 7: "\<forall>k. filter (\<lambda>i. l ! i = k) perm = filter (\<lambda>i. l ! i = k) (np_argsort ev l)"
    by (simp add: p_def)
  then have 8: "keeps_order l (np_argsort ev l) \<longrightarrow> keeps_order l perm"
    by (simp add: keeps_order_def)
  show ?thesis
    by (intro exI [of _ perm] exI [of _ groups] conjI) (rule 1 2 3 4 5 6 7 8)+
qed


lemma stable_argsort_contract: "argsort_contract stable_argsort"
  by (simp add: argsort_contract_def stable_argsort_def)

lemma argsort_at_2211_contract: "argsort_contract argsort_at_2211"
proof -
  have u: "[0..<4] = [0, 1, 2, 3 :: nat]"
    by (simp add: upt_rec)
  have m4: "mset [3, 2, 1, 0 :: nat] = mset [0..<4]"
    unfolding u by simp
  have l4: "length [2, 2, 1, 1 :: nat] = 4"
    by simp
  have m: "mset [3, 2, 1, 0 :: nat] = mset [0..<length [2, 2, 1, 1 :: nat]]"
    unfolding l4 by (rule m4)
  have s: "sorted (map ((!) [2, 2, 1, 1 :: nat]) [3, 2, 1, 0])"
    by simp
  have "mset (argsort_at_2211 ks) = mset [0..<length ks]
      \<and> sorted (map ((!) ks) (argsort_at_2211 ks))" for ks
  proof (cases "ks = [2, 2, 1, 1]")
    case True
    with m s show ?thesis
      by (simp only: argsort_at_2211_def if_True simp_thms)
  next
    case False
    then show ?thesis
      by (simp add: argsort_at_2211_def stable_argsort_def)
  qed
  then show ?thesis
    by (simp only: argsort_contract_def simp_thms)
qed

lemma rev_shuffle_contract: "shuffle_contract rev"
  by (simp add: shuffle_contract_def)

lemma id_shuffle_contract: "shuffle_contract (\<lambda>groups. groups)"
  by (simp add: shuffle_contract_def)

theorem bucket_shuffle_groups_witness:
  "\<exists>perm :: nat list.
      bucket_shuffle ex_env
        ([''a-norm-feats.npy'', ''b-norm-feats.npy'', ''c-norm-feats.npy''],
         [''a-ids.npy'', ''b-ids.npy'', ''c-ids.npy''],
         [''a-durations.npy'', ''b-durations.npy'', ''c-durations.npy''], [3, 1, 3])
        = Inr (map ((!) [''a-norm-feats.npy'', ''b-norm-feats.npy'', ''c-norm-feats.npy'']) perm,
               map ((!) [''a-ids.npy'', ''b-ids.npy'', ''c-ids.npy'']) perm,
               map ((!) [''a-durations.npy'', ''b-durations.npy'', ''c-durations.npy'']) perm,
               map ((!) [3, 1, 3]) perm)
    \<and> mset perm = mset [0..<3]
    \<and> keeps_order [3, 1, 3] perm"
proof -
  let ?m = "[''a-norm-feats.npy'', ''b-norm-feats.npy'', ''c-norm-feats.npy'']"
  let ?c = "[''a-ids.npy'', ''b-ids.npy'', ''c-ids.npy'']"
  let ?d = "[''a-durations.npy'', ''b-durations.npy'', ''c-durations.npy'']"
  let ?l = "[3, 1, 3] :: nat list"
  have a: "argsort_contract (np_argsort ex_env)"
    by (simp add: ex_env_def stable_argsort_contract)
  have s: "shuffle_contract (random_shuffle ex_env)"
    by (simp add: ex_env_def rev_shuffle_contract)
  have k: "keeps_order ?l (np_argsort ex_env ?l)"
    by code_simp
  have l1: "length ?c = length ?m" and l2: "length ?d = length ?m"
    and l3: "length ?l = length ?m"
    by simp_all
  from bucket_shuffle_groups [OF a s l1 l2 l3]
  show ?thesis
  proof (elim exE conjE)
    fix perm :: "nat list" and groups :: "nat list list"
    assume r: "bucket_shuffle ex_env (?m, ?c, ?d, ?l)
        = Inr (map ((!) ?m) perm, map ((!) ?c) perm, map ((!) ?d) perm, map ((!) ?l) perm)"
      and pm: "mset perm = mset [0..<length ?m]"
      and ko: "keeps_order ?l (np_argsort ex_env ?l) \<longrightarrow> keeps_order ?l perm"
    have len3: "length ?m = 3"
      by simp
    from pm have pm3: "mset perm = mset [0..<3]"
      unfolding len3 .
    from ko k have kp: "keeps_order ?l perm"
      by (rule mp)
    show ?thesis
      by (intro exI [of _ perm] conjI) (rule r pm3 kp)+
  qed
qed

text \<open>
  C2 as stated fails: for four samples \<open>a\<close>, \<open>b\<close>, \<open>c\<close>, \<open>d\<close> with 2, 2, 1 and 1 frames, where
  \<^verbatim>\<open>np.argsort\<close> gives the positions \<open>[3, 2, 1, 0]\<close>, the groups are \<open>d\<close>, \<open>c\<close> and \<open>b\<close>, \<open>a\<close>.
  Whichever of its two outcomes \<^verbatim>\<open>random.shuffle\<close> has on the two groups, the samples of equal
  length leave the constructor in the reverse of their original order.
\<close>

theorem equal_lengths_reordered:
  "argsort_contract (np_argsort four_env) \<and> shuffle_contract (random_shuffle four_env)
 \<and> shuffle_contract (random_shuffle four_env_swapped)
 \<and> (case snd (init four_env four_args) of
      Inl e \<Rightarrow> False
    | Inr ds \<Rightarrow>
        mel_files ds = [''dump/d-norm-feats.npy'', ''dump/c-norm-feats.npy'',
                        ''dump/b-norm-feats.npy'', ''dump/a-norm-feats.npy'']
      \<and> utt_ids ds = [''d'', ''c'', ''b'', ''a''])
 \<and> (case snd (init four_env_swapped four_args) of
      Inl e \<Rightarrow> False
    | Inr ds \<Rightarrow>
        mel_files ds = [''dump/b-norm-feats.npy'', ''dump/a-norm-feats.npy'',
                        ''dump/d-norm-feats.npy'', ''dump/c-norm-feats.npy'']
      \<and> utt_ids ds = [''b'', ''a'', ''d'', ''c''])
 \<and> np_argsort four_env [2, 2, 1, 1] = [3, 2, 1, 0]
 \<and> bucket_shuffle four_env
      ([''dump/a-norm-feats.npy'', ''dump/b-norm-feats.npy'', ''dump/c-norm-feats.npy'',
        ''dump/d-norm-feats.npy''],
       [''dump/a-ids.npy'', ''dump/b-ids.npy'', ''dump/c-ids.npy'', ''dump/d-ids.npy''],
       [''dump/a-durations.npy'', ''dump/b-durations.npy'', ''dump/c-durations.npy'',
        ''dump/d-durations.npy''],
       [2, 2, 1, 1])
    = Inr ([''dump/d-norm-feats.npy'', ''dump/c-norm-feats.npy'', ''dump/b-norm-feats.npy'',
            ''dump/a-norm-feats.npy''],
           [''dump/d-ids.npy'', ''dump/c-ids.npy'', ''dump/b-ids.npy'', ''dump/a-ids.npy''],
           [''dump/d-durations.npy'', ''dump/c-durations.npy'', ''dump/b-durations.npy'',
            ''dump/a-durations.npy''],
           [1, 1, 2, 2])
 \<and> bucket_shuffle four_env_swapped
      ([''dump/a-norm-feats.npy'', ''dump/b-norm-feats.npy'', ''dump/c-norm-feats.npy'',
        ''dump/d-norm-feats.npy''],
       [''dump/a-ids.npy'', ''dump/b-ids.npy'', ''dump/c-ids.npy'', ''dump/d-ids.npy''],
       [''dump/a-durations.npy'', ''dump/b-durations.npy'', ''dump/c-durations.npy'',
        ''dump/d-durations.npy''],
       [2, 2, 1, 1])
    = Inr ([''dump/b-norm-feats.npy'', ''dump/a-norm-feats.npy'', ''dump/d-norm-feats.npy'',
            ''dump/c-norm-feats.npy''],
           [''dump/b-ids.npy'', ''dump/a-ids.npy'', ''dump/d-ids.npy'', ''dump/c-ids.npy''],
           [''dump/b-durations.npy'', ''dump/a-durations.npy'', ''dump/d-durations.npy'',
            ''dump/c-durations.npy''],
           [2, 2, 1, 1])
 \<and> \<not> keeps_order [2, 2, 1, 1] [3, 2, 1, 0]
 \<and> \<not> keeps_order [2, 2, 1, 1] [1, 0, 3, 2]"
proof -
  have "argsort_contract (np_argsort four_env)"
    by (simp add: four_env_def argsort_at_2211_contract)
  moreover have "shuffle_contract (random_shuffle four_env)"
    by (simp add: four_env_def id_shuffle_contract)
  moreover have "shuffle_contract (random_shuffle four_env_swapped)"
    by (simp add: four_env_swapped_def rev_shuffle_contract)
  moreover have "case snd (init four_env four_args) of
      Inl e \<Rightarrow> False
    | Inr ds \<Rightarrow>
        mel_files ds = [''dump/d-norm-feats.npy'', ''dump/c-norm-feats.npy'',
                        ''dump/b-norm-feats.npy'', ''dump/a-norm-feats.npy'']
      \<and> utt_ids ds = [''d'', ''c'', ''b'', ''a'']"
    by code_simp
  moreover have "case snd (init four_env_swapped four_args) of
      Inl e \<Rightarrow> False
    | Inr ds \<Rightarrow>
        mel_files ds = [''dump/b-norm-feats.npy'', ''dump/a-norm-feats.npy'',
                        ''dump/d-norm-feats.npy'', ''dump/c-norm-feats.npy'']
      \<and> utt_ids ds = [''b'', ''a'', ''d'', ''c'']"
    by code_simp
  moreover have "np_argsort four_env [2, 2, 1, 1] = [3, 2, 1, 0]"
    by code_simp
  moreover have "bucket_shuffle four_env
      ([''dump/a-norm-feats.npy'', ''dump/b-norm-feats.npy'', ''dump/c-norm-feats.npy'',
        ''dump/d-norm-feats.npy''],
       [''dump/a-ids.npy'', ''dump/b-ids.npy'', ''dump/c-ids.npy'', ''dump/d-ids.npy''],
       [''dump/a-durations.npy'', ''dump/b-durations.npy'', ''dump/c-durations.npy'',
        ''dump/d-durations.npy''],
       [2, 2, 1, 1])
    = Inr ([''dump/d-norm-feats.npy'', ''dump/c-norm-feats.npy'', ''dump/b-norm-feats.npy'',
            ''dump/a-norm-feats.npy''],
           [''dump/d-ids.npy'', ''dump/c-ids.npy'', ''dump/b-ids.npy'', ''dump/a-ids.npy''],
           [''dump/d-durations.npy'', ''dump/c-durations.npy'', ''dump/b-durations.npy'',
            ''dump/a-durations.npy''],
           [1, 1, 2, 2])"
    by code_simp
  moreover have "bucket_shuffle four_env_swapped
      ([''dump/a-norm-feats.npy'', ''dump/b-norm-feats.npy'', ''dump/c-norm-feats.npy'',
        ''dump/d-norm-feats.npy''],
       [''dump/a-ids.npy'', ''dump/b-ids.npy'', ''dump/c-ids.npy'', ''dump/d-ids.npy''],
       [''dump/a-durations.npy'', ''dump/b-durations.npy'', ''dump/c-durations.npy'',
        ''dump/d-durations.npy''],
       [2, 2, 1, 1])
    = Inr ([''dump/b-norm-feats.npy'', ''dump/a-norm-feats.npy'', ''dump/d-norm-feats.npy'',
            ''dump/c-norm-feats.npy''],
           [''dump/b-ids.npy'', ''dump/a-ids.npy'', ''dump/d-ids.npy'', ''dump/c-ids.npy''],
           [''dump/b-durations.npy'', ''dump/a-durations.npy'', ''dump/d-durations.npy'',
            ''dump/c-durations.npy''],
           [2, 2, 1, 1])"
    by code_simp
  moreover have "\<not> keeps_order [2, 2, 1, 1] [3, 2, 1, 0]"
    by code_simp
  moreover have "\<not> keeps_order [2, 2, 1, 1] [1, 0, 3, 2]"
    by code_simp
  ultimately show ?thesis
    by (intro conjI)
qed

end
